theory Spec2Isabelle
  imports Main "HOL-Library.AList" "HOL-Library.Multiset"
begin

section \<open>The deployment script\<close>

text \<open>
  The deployment script is a straight-line bash script run under \<^verbatim>\<open>set -e\<close>. It is
  modelled as a function from the environment it runs in to the list of commands it issued
  and the way it ended. The environment is a record of the answers the external tools give;
  an answer that can change while the script runs (a port probe before and after the
  teardown, a curl probe at each iteration of a retry loop) is a function of the occurrence
  of the query.

  The helpers \<^verbatim>\<open>log\<close>, \<^verbatim>\<open>error\<close> and \<^verbatim>\<open>warning\<close> (an \<^verbatim>\<open>echo\<close>), \<^verbatim>\<open>sleep\<close>, \<^verbatim>\<open>true\<close> and the
  test builtin are taken to return status 0. Messages of \<^verbatim>\<open>log\<close> are not recorded; those of
  \<^verbatim>\<open>error\<close> and \<^verbatim>\<open>warning\<close> are.
\<close>

subsection \<open>Commands, messages and results\<close>

datatype phase =
    EnvironmentValidation
  | PortCheck
  | FileValidation
  | Cleanup
  | BuildStart
  | PostDeploy
  | HealthCheck
  | ImageInspection
  | Summary

datatype service = Backend | Nginx

datatype err =
    DockerNotInstalled
  | ComposeNotInstalled
  | DaemonNotRunning
  | ComposeFileNotFound
  | BankingBackendNotFound
  | StudentPortfolioNotFound
  | NginxConfNotFound
  | NginxContainerNotFound
  | HealthCheckFailed service nat

datatype warn = PortInUse nat | PortStillInUse nat

datatype probe_cmd =
    CurlF_Login
  | CurlS_Backend
  | CurlF_Nginx
  | CurlS_Nginx_Grep

datatype event =
    DockerVersion
  | ComposeDown
  | ComposeDownV
  | ComposeUp
  | Sleep nat
  | DockerImages
  | DockerPs
  | DockerPsNginx
  | Probe probe_cmd nat
  | DockerInspect
  | Error err
  | Warning warn

datatype status = Continue | Halt phase nat

type_synonym run = "event list \<times> status"

text \<open>The commands that stop, remove, build or start containers.\<close>

fun container_action :: "event \<Rightarrow> bool" where
  "container_action ComposeDown = True"
| "container_action ComposeDownV = True"
| "container_action ComposeUp = True"
| "container_action _ = False"

fun teardown :: "event \<Rightarrow> bool" where
  "teardown ComposeDown = True"
| "teardown ComposeDownV = True"
| "teardown _ = False"

subsection \<open>The environment\<close>

record env =
  has_docker :: bool
  has_docker_compose :: bool
  has_compose_plugin :: bool
  docker_info_ok :: bool
  netstat_listen :: "nat \<Rightarrow> nat \<Rightarrow> bool"
  lsof_listen :: "nat \<Rightarrow> nat \<Rightarrow> bool"
  compose_down_status :: "nat \<Rightarrow> nat"
  script_dir_ok :: bool
  compose_yaml :: bool
  compose_yml :: bool
  banking_backend_dir :: bool
  studentportfolio_dir :: bool
  nginx_conf :: bool
  compose_down_v_status :: nat
  compose_up_status :: nat
  docker_images_out :: "string list"
  docker_ps_status :: nat
  docker_ps_nginx_status :: nat
  docker_ps_nginx_out :: string
  curl_f_login :: "nat \<Rightarrow> bool"
  curl_s_backend :: "nat \<Rightarrow> bool"
  curl_f_nginx :: "nat \<Rightarrow> bool"
  curl_s_nginx_body :: "nat \<Rightarrow> string list"
  docker_inspect_status :: nat

text \<open>
  \<^item> \<open>has_docker\<close>, \<open>has_docker_compose\<close>: \<^verbatim>\<open>command -v\<close> finds the tool;
    \<open>has_compose_plugin\<close>: \<^verbatim>\<open>docker compose version\<close> succeeds; \<open>docker_info_ok\<close>:
    \<^verbatim>\<open>docker info\<close> succeeds.
  \<^item> \<open>netstat_listen port k\<close>, \<open>lsof_listen port k\<close>: the two probes of a port, at the
    first check (\<open>k = 0\<close>) and at the check after the teardown (\<open>k = 1\<close>).
  \<^item> \<open>compose_down_status port\<close>: exit status of the \<^verbatim>\<open>docker-compose down\<close> run for
    that port; \<open>compose_down_v_status\<close>, \<open>compose_up_status\<close>, \<open>docker_ps_status\<close>,
    \<open>docker_inspect_status\<close>: exit statuses of the commands of those names.
  \<^item> \<open>script_dir_ok\<close>: the command substitution that computes \<^verbatim>\<open>SCRIPT_DIR\<close> succeeds.
  \<^item> \<open>compose_yaml\<close> ... \<open>nginx_conf\<close>: the results of the \<^verbatim>\<open>-f\<close> and \<^verbatim>\<open>-d\<close> tests.
  \<^item> \<open>docker_images_out\<close>: the lines \<^verbatim>\<open>docker images\<close> prints.
  \<^item> \<open>docker_ps_nginx_status\<close>, \<open>docker_ps_nginx_out\<close>: the exit status of
    \<^verbatim>\<open>docker ps --filter "name=nginx" --format "{{.ID}}"\<close> and what it prints on its
    standard output; the two are independent.
  \<^item> \<open>curl_f_login i\<close>, \<open>curl_s_backend i\<close>, \<open>curl_f_nginx i\<close>: the curl command
    succeeds when run with \<^verbatim>\<open>RETRY_COUNT\<close> equal to \<open>i\<close>; \<open>curl_s_nginx_body i\<close>:
    the lines \<^verbatim>\<open>curl -s http://localhost:80\<close> prints then.
\<close>

subsection \<open>Shell control flow\<close>

text \<open>\<^verbatim>\<open>set -e\<close>: a simple command that returns a non-zero status ends the script with it.\<close>

definition errexit :: "phase \<Rightarrow> nat \<Rightarrow> status" where
  "errexit ph st = (if st = 0 then Continue else Halt ph st)"

text \<open>The status of \<^verbatim>\<open>a || b\<close>.\<close>

definition or_status :: "nat \<Rightarrow> nat \<Rightarrow> nat" where
  "or_status a b = (if a = 0 then 0 else b)"

text \<open>Sequencing: what follows a halted command does not run.\<close>

definition then_run :: "run \<Rightarrow> run \<Rightarrow> run" where
  "then_run a b = (case snd a of Continue \<Rightarrow> (fst a @ fst b, snd b) | Halt ph c \<Rightarrow> a)"

fun steps :: "run list \<Rightarrow> run" where
  "steps [] = ([], Continue)"
| "steps (r # rs) = then_run r (steps rs)"

fun for_each :: "('a \<Rightarrow> run) \<Rightarrow> 'a list \<Rightarrow> run" where
  "for_each body [] = ([], Continue)"
| "for_each body (x # xs) = then_run (body x) (for_each body xs)"

text \<open>\<^verbatim>\<open>if [ ! ok ]; then error "..."; exit 1; fi\<close>\<close>

definition require :: "bool \<Rightarrow> err \<Rightarrow> phase \<Rightarrow> run" where
  "require ok er ph = (if ok then ([], Continue) else ([Error er], Halt ph 1))"

definition exit_code :: "run \<Rightarrow> nat" where
  "exit_code r = (case snd r of Continue \<Rightarrow> 0 | Halt ph c \<Rightarrow> c)"

subsection \<open>grep with a fixed pattern\<close>

fun starts_with :: "string \<Rightarrow> string \<Rightarrow> bool" where
  "starts_with [] s = True"
| "starts_with (p # ps) [] = False"
| "starts_with (p # ps) (c # cs) = (p = c \<and> starts_with ps cs)"

fun grep_line :: "string \<Rightarrow> string \<Rightarrow> bool" where
  "grep_line pat [] = starts_with pat []"
| "grep_line pat (c # cs) = (starts_with pat (c # cs) \<or> grep_line pat cs)"

text \<open>\<^verbatim>\<open>grep -E "p1|p2|..."\<close>: the lines in which one of the alternatives occurs.\<close>

definition grep_E :: "string list \<Rightarrow> string list \<Rightarrow> string list" where
  "grep_E pats ls = filter (\<lambda>l. list_ex (\<lambda>p. grep_line p l) pats) ls"

text \<open>grep returns 0 when some line is selected and 1 when none is.\<close>

definition grep_status :: "string list \<Rightarrow> nat" where
  "grep_status selected = (if selected = [] then 1 else 0)"

subsection \<open>Section 1: pre-deployment checks\<close>

definition environment_validation :: "env \<Rightarrow> run" where
  "environment_validation e = steps
     [require (has_docker e) DockerNotInstalled EnvironmentValidation,
      ([DockerVersion], Continue),
      require (\<not> (\<not> has_docker_compose e \<and> \<not> has_compose_plugin e))
        ComposeNotInstalled EnvironmentValidation,
      require (docker_info_ok e) DaemonNotRunning EnvironmentValidation]"

definition REQUIRED_PORTS :: "nat list" where
  "REQUIRED_PORTS = [80, 5000, 3000, 27017]"

text \<open>\<^verbatim>\<open>netstat -an | grep -q ":$port.*LISTEN" || lsof -Pi :$port -sTCP:LISTEN -t\<close>\<close>

definition port_in_use :: "env \<Rightarrow> nat \<Rightarrow> nat \<Rightarrow> bool" where
  "port_in_use e port k = (netstat_listen e port k \<or> lsof_listen e port k)"

definition check_port :: "env \<Rightarrow> nat \<Rightarrow> run" where
  "check_port e port =
     (if port_in_use e port 0 then steps
        [([Warning (PortInUse port)], Continue),
         ([ComposeDown], errexit PortCheck (or_status (compose_down_status e port) 0)),
         ([Sleep 2], Continue),
         (if port_in_use e port 1 then ([Warning (PortStillInUse port)], Continue)
          else ([], Continue))]
      else ([], Continue))"

definition port_check :: "env \<Rightarrow> run" where
  "port_check e = for_each (check_port e) REQUIRED_PORTS"

subsection \<open>Section 2: directory and file validation\<close>

definition file_validation :: "env \<Rightarrow> run" where
  "file_validation e = steps
     [([], errexit FileValidation (if script_dir_ok e then 0 else 1)),
      require (\<not> (\<not> compose_yaml e \<and> \<not> compose_yml e)) ComposeFileNotFound FileValidation,
      require (banking_backend_dir e) BankingBackendNotFound FileValidation,
      require (studentportfolio_dir e) StudentPortfolioNotFound FileValidation,
      require (nginx_conf e) NginxConfNotFound FileValidation]"

subsection \<open>Section 3: cleanup of an existing deployment\<close>

text \<open>\<^verbatim>\<open>docker-compose down -v 2>/dev/null || true\<close>\<close>

definition cleanup :: "env \<Rightarrow> run" where
  "cleanup e = ([ComposeDownV], errexit Cleanup (or_status (compose_down_v_status e) 0))"

subsection \<open>Section 4: build and deploy\<close>

definition build_and_start :: "env \<Rightarrow> run" where
  "build_and_start e = steps
     [([ComposeUp], errexit BuildStart (compose_up_status e)),
      ([Sleep 30], Continue)]"

subsection \<open>Section 5: validation of the deployment\<close>

definition IMAGE_PATTERNS :: "string list" where
  "IMAGE_PATTERNS = [''mongo'', ''backend'', ''portfolio'', ''nginx'', ''assignment'']"

text \<open>
  The value of the variable after the command substitution: what the command printed,
  whatever its status.
\<close>

definition NGINX_CONTAINER_ID :: "env \<Rightarrow> string" where
  "NGINX_CONTAINER_ID e = docker_ps_nginx_out e"

text \<open>
  A pipeline returns the status of its last command, so \<^verbatim>\<open>docker images | grep -E ...\<close>
  returns that of grep. An assignment whose value is a command substitution returns the
  status of the substituted command, so under \<^verbatim>\<open>set -e\<close> a failing \<^verbatim>\<open>docker ps\<close> ends the
  script with its own status before the \<^verbatim>\<open>-z\<close> test is reached.
\<close>

definition list_images_and_containers :: "env \<Rightarrow> run" where
  "list_images_and_containers e = steps
     [([DockerImages],
        errexit PostDeploy (grep_status (grep_E IMAGE_PATTERNS (docker_images_out e)))),
      ([DockerPs], errexit PostDeploy (docker_ps_status e))]"

definition resolve_nginx_container :: "env \<Rightarrow> run" where
  "resolve_nginx_container e = steps
     [([DockerPsNginx], errexit PostDeploy (docker_ps_nginx_status e)),
      require (NGINX_CONTAINER_ID e \<noteq> []) NginxContainerNotFound PostDeploy]"

subsection \<open>Section 6: health checks\<close>

definition MAX_RETRIES :: nat where
  "MAX_RETRIES = 10"

datatype loop_end = Break | Exit1 | CondFalse

record loop_run =
  ended :: loop_end
  counts :: "nat list"
  attempts :: nat
  events :: "event list"

text \<open>
  The retry loop, from the value \<open>rc\<close> of \<^verbatim>\<open>RETRY_COUNT\<close>. The probe is the condition of
  the \<^verbatim>\<open>if\<close>: it returns the commands it ran and whether it succeeded. The result records
  how the loop was left (by \<^verbatim>\<open>break\<close>, by \<^verbatim>\<open>exit 1\<close>, or by its condition becoming
  false), the successive values of \<^verbatim>\<open>RETRY_COUNT\<close>, the number of times the probe ran, and
  the commands run.
\<close>

function health_loop ::
  "service \<Rightarrow> nat \<Rightarrow> (nat \<Rightarrow> event list \<times> bool) \<Rightarrow> nat \<Rightarrow> loop_run" where
  "health_loop svc mx probe rc =
     (if rc < mx then
        (if snd (probe rc) then
           \<lparr>ended = Break, counts = [rc], attempts = 1, events = fst (probe rc)\<rparr>
         else if Suc rc = mx then
           \<lparr>ended = Exit1, counts = [rc, Suc rc], attempts = 1,
            events = fst (probe rc) @ [Error (HealthCheckFailed svc mx)]\<rparr>
         else
           (let r = health_loop svc mx probe (Suc rc)
            in \<lparr>ended = ended r, counts = rc # counts r, attempts = Suc (attempts r),
                events = fst (probe rc) @ [Sleep 3] @ events r\<rparr>))
      else \<lparr>ended = CondFalse, counts = [rc], attempts = 0, events = []\<rparr>)"
  by pat_completeness auto
termination
  by (relation "measure (\<lambda>(svc, mx, probe, rc). mx - rc)") auto

text \<open>\<^verbatim>\<open>RETRY_COUNT=0\<close>, then the loop; \<^verbatim>\<open>exit 1\<close> ends the script.\<close>

definition health_check :: "service \<Rightarrow> (nat \<Rightarrow> event list \<times> bool) \<Rightarrow> run" where
  "health_check svc probe =
     (let r = health_loop svc MAX_RETRIES probe 0
      in (events r, case ended r of Exit1 \<Rightarrow> Halt HealthCheck 1 | _ \<Rightarrow> Continue))"

text \<open>
  \<^verbatim>\<open>curl -f http://localhost:5000/api/login || curl -s http://localhost:5000\<close>: the second
  command runs only when the first fails.
\<close>

definition backend_probe :: "env \<Rightarrow> nat \<Rightarrow> event list \<times> bool" where
  "backend_probe e i =
     (if curl_f_login e i then ([Probe CurlF_Login i], True)
      else ([Probe CurlF_Login i, Probe CurlS_Backend i], curl_s_backend e i))"

text \<open>\<^verbatim>\<open>curl -f http://localhost:80 || curl -s http://localhost:80 | grep -q "Pixel River"\<close>\<close>

definition nginx_probe :: "env \<Rightarrow> nat \<Rightarrow> event list \<times> bool" where
  "nginx_probe e i =
     (if curl_f_nginx e i then ([Probe CurlF_Nginx i], True)
      else ([Probe CurlF_Nginx i, Probe CurlS_Nginx_Grep i],
            grep_status (grep_E [''Pixel River''] (curl_s_nginx_body e i)) = 0))"

subsection \<open>Sections 7 and 8: image inspection and summary\<close>

text \<open>
  \<^verbatim>\<open>docker inspect nginx:alpine > nginx-logs.txt\<close> is a simple command. The extraction
  pipelines that follow end in \<^verbatim>\<open>sed\<close> or \<^verbatim>\<open>head\<close>, which return 0 whatever grep selected.
\<close>

definition image_inspection :: "env \<Rightarrow> run" where
  "image_inspection e = ([DockerInspect], errexit ImageInspection (docker_inspect_status e))"

definition summary :: "env \<Rightarrow> run" where
  "summary e = ([], Continue)"

subsection \<open>The script\<close>

definition script :: "env \<Rightarrow> run list" where
  "script e =
     [environment_validation e,
      port_check e,
      file_validation e,
      cleanup e,
      build_and_start e,
      list_images_and_containers e,
      resolve_nginx_container e,
      health_check Backend (backend_probe e),
      health_check Nginx (nginx_probe e),
      image_inspection e,
      summary e]"

definition deploy :: "env \<Rightarrow> run" where
  "deploy e = steps (script e)"

text \<open>The script did not halt in its first \<open>n\<close> parts.\<close>

definition passes :: "nat \<Rightarrow> env \<Rightarrow> bool" where
  "passes n e = (snd (steps (take n (script e))) = Continue)"

definition reaches_cleanup :: "env \<Rightarrow> bool" where
  "reaches_cleanup e = passes 3 e"

definition reaches_enumeration :: "env \<Rightarrow> bool" where
  "reaches_enumeration e = passes 5 e"

definition reaches_resolution :: "env \<Rightarrow> bool" where
  "reaches_resolution e = passes 6 e"

definition reaches_health_checks :: "env \<Rightarrow> bool" where
  "reaches_health_checks e = passes 7 e"

text \<open>A required file or directory is absent.\<close>

definition missing_required :: "env \<Rightarrow> bool" where
  "missing_required e =
     ((\<not> compose_yaml e \<and> \<not> compose_yml e) \<or> \<not> banking_backend_dir e \<or>
      \<not> studentportfolio_dir e \<or> \<not> nginx_conf e)"

text \<open>Polling succeeds at attempt \<open>K\<close>: the loop is left by \<^verbatim>\<open>break\<close> on the \<open>K\<close>-th probe.\<close>

definition succeeds_at :: "loop_run \<Rightarrow> nat \<Rightarrow> bool" where
  "succeeds_at r K = (ended r = Break \<and> attempts r = K)"

subsection \<open>Sample environments\<close>

text \<open>
  Every tool is installed, every file is present, no port is in use, no deployment exists
  yet (the teardown fails); the backend answers on its root path from the third attempt on,
  and nginx serves the page at the second attempt.
\<close>

definition healthy_env :: env where
  "healthy_env =
     \<lparr>has_docker = True, has_docker_compose = True, has_compose_plugin = False,
      docker_info_ok = True,
      netstat_listen = (\<lambda>port k. False), lsof_listen = (\<lambda>port k. False),
      compose_down_status = (\<lambda>port. 1),
      script_dir_ok = True, compose_yaml = True, compose_yml = False,
      banking_backend_dir = True, studentportfolio_dir = True, nginx_conf = True,
      compose_down_v_status = 1, compose_up_status = 0,
      docker_images_out = [''REPOSITORY   TAG   IMAGE ID'', ''nginx   alpine   1e5f3c5b981a''],
      docker_ps_status = 0,
      docker_ps_nginx_status = 0, docker_ps_nginx_out = ''4f2a9c1d7b3e'',
      curl_f_login = (\<lambda>i. False), curl_s_backend = (\<lambda>i. 2 \<le> i),
      curl_f_nginx = (\<lambda>i. False),
      curl_s_nginx_body = (\<lambda>i. if i = 1 then [''<title>Pixel River</title>''] else []),
      docker_inspect_status = 0\<rparr>"

text \<open>
  Port 80 is held by an earlier deployment, which the teardown stops, and \<^verbatim>\<open>nginx.conf\<close>
  is absent.
\<close>

definition busy_port_no_conf_env :: env where
  "busy_port_no_conf_env =
     healthy_env\<lparr>netstat_listen := (\<lambda>port k. port = 80 \<and> k = 0),
       compose_down_status := (\<lambda>port. 0), nginx_conf := False\<rparr>"

text \<open>The backend never answers.\<close>

definition dead_backend_env :: env where
  "dead_backend_env = healthy_env\<lparr>curl_s_backend := (\<lambda>i. False)\<rparr>"

text \<open>Every required port stays in use.\<close>

definition busy_ports_env :: env where
  "busy_ports_env = healthy_env\<lparr>lsof_listen := (\<lambda>port k. True)\<rparr>"

text \<open>The images of the deployment carry none of the listed words in their names.\<close>

definition other_images_env :: env where
  "other_images_env =
     healthy_env\<lparr>docker_images_out :=
       [''REPOSITORY   TAG   IMAGE ID'', ''bank-api   latest   9c0d1e2f3a4b'']\<rparr>"

text \<open>No container has nginx in its name.\<close>

definition no_nginx_env :: env where
  "no_nginx_env = healthy_env\<lparr>docker_ps_nginx_out := []\<rparr>"

text \<open>The command that resolves the container prints an identifier and returns status 2.\<close>

definition failing_ps_env :: env where
  "failing_ps_env = healthy_env\<lparr>docker_ps_nginx_status := 2\<rparr>"

section \<open>The transactions service\<close>

text \<open>
  The route \<^verbatim>\<open>GET /api/transactions/:email\<close> of \<^verbatim>\<open>server.js\<close>. The handler reads the
  stored documents of one user and groups them under the key
  \<^verbatim>\<open>new Date(transaction.timestamp).toLocaleString("en-US", {month: "long", year: "numeric"})\<close>.
\<close>

subsection \<open>Dates of the JavaScript runtime\<close>

text \<open>
  The date arithmetic of the language standard: a time value is a number of milliseconds
  since 1970-01-01T00:00:00Z, days and years are counted in the proleptic Gregorian
  calendar. \<open>YearFromTime t\<close> is the largest year \<open>y\<close> with \<open>DayFromYear y \<le> Day t\<close>;
  here it is found by counting up from a year that is not too late.
\<close>

definition msPerDay :: int where
  "msPerDay = 86400000"

definition Day :: "int \<Rightarrow> int" where
  "Day t = t div msPerDay"

definition DayFromYear :: "int \<Rightarrow> int" where
  "DayFromYear y =
     365 * (y - 1970) + (y - 1969) div 4 - (y - 1901) div 100 + (y - 1601) div 400"

function year_from :: "int \<Rightarrow> int \<Rightarrow> int" where
  "year_from d y = (if DayFromYear (y + 1) \<le> d then year_from d (y + 1) else y)"
  by pat_completeness auto
termination
proof (relation "measure (\<lambda>(d, y). nat (d - DayFromYear (y + 1) + 1))")
  show "wf (measure (\<lambda>(d, y). nat (d - DayFromYear (y + 1) + 1)))"
    by simp
next
  fix d y :: int
  assume le: "DayFromYear (y + 1) \<le> d"
  define a b c where "a = (y - 1968) div 4" and "b = (y - 1900) div 100"
    and "c = (y - 1600) div 400"
  define a' b' c' where "a' = (y - 1967) div 4" and "b' = (y - 1899) div 100"
    and "c' = (y - 1599) div 400"
  have 1: "DayFromYear (y + 1) = 365 * (y - 1969) + a - b + c"
    unfolding DayFromYear_def a_def b_def c_def by (simp only: diff_conv_add_uminus) simp
  have 2: "DayFromYear (y + 1 + 1) = 365 * (y - 1968) + a' - b' + c'"
    unfolding DayFromYear_def a'_def b'_def c'_def by (simp only: diff_conv_add_uminus) simp
  have "a \<le> a'"
    unfolding a_def a'_def by (rule zdiv_mono1) simp_all
  moreover have "b' \<le> b + 1"
  proof -
    have "b' \<le> (y - 1900 + 100) div 100"
      unfolding b'_def by (rule zdiv_mono1) simp_all
    also have "\<dots> = b + 1"
      unfolding b_def by simp
    finally show ?thesis .
  qed
  moreover have "c \<le> c'"
    unfolding c_def c'_def by (rule zdiv_mono1) simp_all
  ultimately have "DayFromYear (y + 1) < DayFromYear (y + 1 + 1)"
    unfolding 1 2 by (simp add: algebra_simps)
  with le show "((d, y + 1), (d, y)) \<in> measure (\<lambda>(d, y). nat (d - DayFromYear (y + 1) + 1))"
    by simp
qed

definition YearFromTime :: "int \<Rightarrow> int" where
  "YearFromTime t =
     year_from (Day t) (1970 + (if 0 \<le> Day t then Day t div 366 else Day t div 365))"

definition InLeapYear :: "int \<Rightarrow> int" where
  "InLeapYear t = DayFromYear (YearFromTime t + 1) - DayFromYear (YearFromTime t) - 365"

definition DayWithinYear :: "int \<Rightarrow> int" where
  "DayWithinYear t = Day t - DayFromYear (YearFromTime t)"

text \<open>The month of the year, from 0 for January to 11 for December.\<close>

definition MonthFromTime :: "int \<Rightarrow> nat" where
  "MonthFromTime t =
     (let d = DayWithinYear t; leap = InLeapYear t in
      if d < 31 then 0
      else if d < 59 + leap then 1
      else if d < 90 + leap then 2
      else if d < 120 + leap then 3
      else if d < 151 + leap then 4
      else if d < 181 + leap then 5
      else if d < 212 + leap then 6
      else if d < 243 + leap then 7
      else if d < 273 + leap then 8
      else if d < 304 + leap then 9
      else if d < 334 + leap then 10
      else 11)"

text \<open>A time value is valid within 8.64e15 milliseconds of the epoch.\<close>

definition TimeClip :: "int \<Rightarrow> int option" where
  "TimeClip t = (if \<bar>t\<bar> \<le> 8640000000000000 then Some t else None)"

text \<open>
  The timestamp of a stored document, as the \<^verbatim>\<open>Date\<close> constructor reads it: a value that
  denotes an instant, or a value that is not a date (a missing field, a text that does
  not parse). \<open>new_Date\<close> gives the time value of the constructed date, \<open>None\<close> for an
  invalid date.
\<close>

datatype js_timestamp = TimeValue int | NotADate

definition new_Date :: "js_timestamp \<Rightarrow> int option" where
  "new_Date v = (case v of TimeValue t \<Rightarrow> TimeClip t | NotADate \<Rightarrow> None)"

text \<open>
  The local time of the server. \<open>LocalTZA t\<close> is the offset in milliseconds of the
  server's time zone from UTC at the instant \<open>t\<close>; it comes from the configuration of the
  host and is a parameter of the model.
\<close>

definition LocalTime :: "(int \<Rightarrow> int) \<Rightarrow> int \<Rightarrow> int" where
  "LocalTime LocalTZA t = t + LocalTZA t"

text \<open>
  The formatting for \<^verbatim>\<open>en-US\<close> with a long month and a numeric year: the English name of
  the month, a space, and the year in decimal digits without grouping. Years before the
  year 1 are numbered within their era. An invalid date formats as \<^verbatim>\<open>Invalid Date\<close>.
\<close>

definition month_long :: "nat \<Rightarrow> string" where
  "month_long m =
     [''January'', ''February'', ''March'', ''April'', ''May'', ''June'', ''July'',
      ''August'', ''September'', ''October'', ''November'', ''December''] ! m"

definition digit :: "nat \<Rightarrow> char" where
  "digit d = ''0123456789'' ! d"

function decimal :: "nat \<Rightarrow> string" where
  "decimal n = (if n < 10 then [digit n] else decimal (n div 10) @ [digit (n mod 10)])"
  by pat_completeness auto
termination
  by (relation "measure (\<lambda>n. n)") auto

definition year_numeric :: "int \<Rightarrow> string" where
  "year_numeric y = decimal (nat (if 1 \<le> y then y else 1 - y))"

definition toLocaleString :: "(int \<Rightarrow> int) \<Rightarrow> int option \<Rightarrow> string" where
  "toLocaleString LocalTZA date =
     (case date of
        None \<Rightarrow> ''Invalid Date''
      | Some t \<Rightarrow>
          month_long (MonthFromTime (LocalTime LocalTZA t)) @ '' '' @
          year_numeric (YearFromTime (LocalTime LocalTZA t)))"

text \<open>The number a decimal numeral denotes.\<close>

fun decimal_value :: "string \<Rightarrow> nat" where
  "decimal_value [] = 0"
| "decimal_value (c # cs) = (of_char c - 48) * 10 ^ length cs + decimal_value cs"

subsection \<open>The route\<close>

text \<open>
  A stored document has the fields the handler reads; the object the handler pushes keeps
  three of them. The amount is only copied, so its type is left open.
\<close>

record 'a entry =
  type :: string
  amount :: 'a
  timestamp :: js_timestamp

record 'a transaction = "'a entry" +
  email :: string

text \<open>
  The JSON object sent back is a list of keys with their arrays, in the order in which
  the keys were created.
\<close>

datatype 'a response =
    Json "(string \<times> 'a entry list) list"
  | Status404
  | Status500 string

text \<open>\<^verbatim>\<open>{type: transaction.type, amount: transaction.amount, timestamp: transaction.timestamp}\<close>\<close>

definition returned_entry :: "'a transaction \<Rightarrow> 'a entry" where
  "returned_entry transaction =
     \<lparr>type = type transaction, amount = amount transaction,
      timestamp = timestamp transaction\<rparr>"

text \<open>The value of \<^verbatim>\<open>monthYear\<close> in the callback of \<^verbatim>\<open>reduce\<close>.\<close>

definition monthYear :: "(int \<Rightarrow> int) \<Rightarrow> 'a transaction \<Rightarrow> string" where
  "monthYear LocalTZA transaction =
     toLocaleString LocalTZA (new_Date (timestamp transaction))"

text \<open>
  The callback of \<^verbatim>\<open>reduce\<close>. A key is never the name of a property that an empty object
  inherits, so \<^verbatim>\<open>acc[monthYear]\<close> is undefined exactly when the key has not been created.
\<close>

definition group_step ::
  "(int \<Rightarrow> int) \<Rightarrow> (string \<times> 'a entry list) list \<Rightarrow> 'a transaction \<Rightarrow>
     (string \<times> 'a entry list) list" where
  "group_step LocalTZA acc transaction =
     (let acc1 = (if map_of acc (monthYear LocalTZA transaction) = None
                  then AList.update (monthYear LocalTZA transaction) [] acc else acc)
      in AList.map_entry (monthYear LocalTZA transaction)
           (\<lambda>entries. entries @ [returned_entry transaction]) acc1)"

definition groupedByMonth ::
  "(int \<Rightarrow> int) \<Rightarrow> 'a transaction list \<Rightarrow> (string \<times> 'a entry list) list" where
  "groupedByMonth LocalTZA transactions = foldl (group_step LocalTZA) [] transactions"

text \<open>\<^verbatim>\<open>db.collection("transactions").find({ email }).toArray()\<close>\<close>

definition find_email :: "'a transaction list \<Rightarrow> string \<Rightarrow> 'a transaction list" where
  "find_email collection e = filter (\<lambda>doc. email doc = e) collection"

text \<open>
  The handler. The store is \<open>None\<close> when \<^verbatim>\<open>db\<close> is still undefined or the query is
  rejected: the exception is caught and answered with status 500.
\<close>

definition get_transactions ::
  "(int \<Rightarrow> int) \<Rightarrow> 'a transaction list option \<Rightarrow> string \<Rightarrow> 'a response" where
  "get_transactions LocalTZA db e =
     (case db of
        None \<Rightarrow> Status500 ''Failed to fetch transactions''
      | Some collection \<Rightarrow> Json (groupedByMonth LocalTZA (find_email collection e)))"

text \<open>
  The route matches a path whose last segment is not empty; for an empty identifier no
  route matches and the framework answers with status 404.
\<close>

definition app_get :: "(int \<Rightarrow> int) \<Rightarrow> 'a transaction list option \<Rightarrow> string \<Rightarrow> 'a response" where
  "app_get LocalTZA db e = (if e = [] then Status404 else get_transactions LocalTZA db e)"

subsection \<open>A sample store and two servers\<close>

text \<open>A server on UTC and a server two hours ahead of UTC.\<close>

definition utc_server :: "int \<Rightarrow> int" where
  "utc_server t = 0"

definition utc_plus_2_server :: "int \<Rightarrow> int" where
  "utc_plus_2_server t = 7200000"

text \<open>
  The first transaction is dated 2024-03-31T22:30:00Z, the second and the fourth
  2024-03-01T13:33:20Z; the timestamp of the third is not a date.
\<close>

definition sample_store :: "int transaction list" where
  "sample_store =
     [\<lparr>type = ''deposit'', amount = 600, timestamp = TimeValue 1711924200000,
       email = ''a@x.ca''\<rparr>,
      \<lparr>type = ''deposit'', amount = 50, timestamp = TimeValue 1709300000000,
       email = ''b@x.ca''\<rparr>,
      \<lparr>type = ''withdraw'', amount = 20, timestamp = NotADate, email = ''a@x.ca''\<rparr>,
      \<lparr>type = ''withdraw'', amount = 5, timestamp = TimeValue 1709300000000,
       email = ''a@x.ca''\<rparr>]"

section \<open>Auxiliary facts\<close>

declare health_loop.simps [simp del]

declare year_from.simps [simp del]

declare decimal.simps [simp del]

subsection \<open>Sequencing\<close>

lemma then_run_passes: "snd a = Continue \<Longrightarrow> then_run a b = (fst a @ fst b, snd b)"
  by (simp add: then_run_def)

lemma then_run_halts: "snd a = Halt ph c \<Longrightarrow> then_run a b = a"
  by (simp add: then_run_def)

lemma then_run_events: "ev \<in> set (fst a) \<Longrightarrow> ev \<in> set (fst (then_run a b))"
  by (auto simp: then_run_def split: status.splits)

lemma steps_append: "steps (xs @ ys) = then_run (steps xs) (steps ys)"
proof (induction xs)
  case Nil
  show ?case by (simp add: then_run_def)
next
  case (Cons r rs)
  show ?case
    by (cases "snd r") (simp_all add: Cons then_run_def split: status.splits)
qed

lemma steps_halt:
  "snd (steps rs) = Halt ph c \<Longrightarrow> \<exists>r\<in>set rs. snd r = Halt ph c"
  by (induction rs) (auto simp: then_run_def split: status.splits)

lemma steps_events:
  "ev \<in> set (fst (steps rs)) \<Longrightarrow> \<exists>r\<in>set rs. ev \<in> set (fst r)"
  by (induction rs) (auto simp: then_run_def split: status.splits)

lemma deploy_split: "deploy e = then_run (steps (take n (script e))) (steps (drop n (script e)))"
  unfolding deploy_def by (metis append_take_drop_id steps_append)

lemma deploy_before:
  "\<not> passes n e \<Longrightarrow> deploy e = steps (take n (script e))"
proof -
  assume "\<not> passes n e"
  then obtain ph c where "snd (steps (take n (script e))) = Halt ph c"
    unfolding passes_def by (cases "snd (steps (take n (script e)))") auto
  then show ?thesis
    by (subst deploy_split [of e n]) (rule then_run_halts)
qed

lemma deploy_after:
  "passes n e \<Longrightarrow>
     deploy e = (fst (steps (take n (script e))) @ fst (steps (drop n (script e))),
                 snd (steps (drop n (script e))))"
  unfolding passes_def by (subst deploy_split [of e n]) (rule then_run_passes)

subsection \<open>The retry loop\<close>

lemma attempts_pos: "rc < mx \<Longrightarrow> 0 < attempts (health_loop svc mx probe rc)"
  by (subst health_loop.simps) (simp add: Let_def)

lemma loop_break_iff:
  "succeeds_at (health_loop svc mx probe rc) (Suc m) \<longleftrightarrow>
     rc + m < mx \<and> snd (probe (rc + m)) \<and> (\<forall>i<m. \<not> snd (probe (rc + i)))"
proof (induction svc mx probe rc arbitrary: m rule: health_loop.induct)
  case (1 svc mx probe rc)
  show ?case
  proof (cases "rc < mx")
    case False
    then show ?thesis
      by (subst health_loop.simps) (simp add: succeeds_at_def)
  next
    case lt: True
    show ?thesis
    proof (cases "snd (probe rc)")
      case True
      with lt show ?thesis
        by (subst health_loop.simps) (cases m; auto simp: succeeds_at_def)
    next
      case no: False
      show ?thesis
      proof (cases "Suc rc = mx")
        case True
        with lt no show ?thesis
          by (subst health_loop.simps) (cases m; auto simp: succeeds_at_def)
      next
        case False
        have step: "succeeds_at (health_loop svc mx probe rc) (Suc m) \<longleftrightarrow>
                    succeeds_at (health_loop svc mx probe (Suc rc)) m"
          using lt no False
          by (subst health_loop.simps) (simp add: succeeds_at_def Let_def)
        show ?thesis
        proof (cases m)
          case 0
          have "Suc rc < mx" using lt False by simp
          from attempts_pos [OF this] have "\<not> succeeds_at (health_loop svc mx probe (Suc rc)) 0"
            by (simp add: succeeds_at_def)
          with step 0 no show ?thesis by simp
        next
          case (Suc m')
          have "succeeds_at (health_loop svc mx probe (Suc rc)) (Suc m') \<longleftrightarrow>
                Suc rc + m' < mx \<and> snd (probe (Suc rc + m')) \<and> (\<forall>i<m'. \<not> snd (probe (Suc rc + i)))"
            using "1.IH" [OF lt no False] .
          with step Suc no show ?thesis
            by (simp add: All_less_Suc2)
        qed
      qed
    qed
  qed
qed

lemma loop_exit_iff:
  "ended (health_loop svc mx probe rc) = Exit1 \<longleftrightarrow>
     rc < mx \<and> (\<forall>i. rc \<le> i \<and> i < mx \<longrightarrow> \<not> snd (probe i))"
proof (induction svc mx probe rc rule: health_loop.induct)
  case (1 svc mx probe rc)
  show ?case
  proof (cases "rc < mx \<and> \<not> snd (probe rc) \<and> Suc rc \<noteq> mx")
    case True
    then have "ended (health_loop svc mx probe rc) = ended (health_loop svc mx probe (Suc rc))"
      by (subst health_loop.simps) (simp add: Let_def)
    moreover have "ended (health_loop svc mx probe (Suc rc)) = Exit1 \<longleftrightarrow>
        Suc rc < mx \<and> (\<forall>i. Suc rc \<le> i \<and> i < mx \<longrightarrow> \<not> snd (probe i))"
      using "1.IH" True by simp
    moreover have "(\<forall>i. Suc rc \<le> i \<and> i < mx \<longrightarrow> \<not> snd (probe i)) \<longleftrightarrow>
        (\<forall>i. rc \<le> i \<and> i < mx \<longrightarrow> \<not> snd (probe i))"
    proof
      assume h: "\<forall>i. Suc rc \<le> i \<and> i < mx \<longrightarrow> \<not> snd (probe i)"
      show "\<forall>i. rc \<le> i \<and> i < mx \<longrightarrow> \<not> snd (probe i)"
      proof (intro allI impI)
        fix i assume i: "rc \<le> i \<and> i < mx"
        show "\<not> snd (probe i)"
        proof (cases "i = rc")
          case True with \<open>rc < mx \<and> \<not> snd (probe rc) \<and> Suc rc \<noteq> mx\<close> show ?thesis by simp
        next
          case False with i have "Suc rc \<le> i \<and> i < mx" by simp
          with h show ?thesis by blast
        qed
      qed
    next
      assume "\<forall>i. rc \<le> i \<and> i < mx \<longrightarrow> \<not> snd (probe i)"
      then show "\<forall>i. Suc rc \<le> i \<and> i < mx \<longrightarrow> \<not> snd (probe i)" by simp
    qed
    moreover have "Suc rc < mx" using True by simp
    ultimately show ?thesis using True by simp
  next
    case False
    show ?thesis
    proof (cases "rc < mx")
      case False
      then show ?thesis by (subst health_loop.simps) simp
    next
      case lt: True
      show ?thesis
      proof (cases "snd (probe rc)")
        case True
        with lt have "ended (health_loop svc mx probe rc) = Break"
          by (subst health_loop.simps) simp
        moreover have "\<not> (\<forall>i. rc \<le> i \<and> i < mx \<longrightarrow> \<not> snd (probe i))"
          using True lt by blast
        ultimately show ?thesis by simp
      next
        case no: False
        with False lt have eq: "Suc rc = mx" by simp
        with lt no have "ended (health_loop svc mx probe rc) = Exit1"
          by (subst health_loop.simps) simp
        moreover have "\<forall>i. rc \<le> i \<and> i < mx \<longrightarrow> \<not> snd (probe i)"
        proof (intro allI impI)
          fix i assume "rc \<le> i \<and> i < mx"
          with eq have "i = rc" by simp
          with no show "\<not> snd (probe i)" by simp
        qed
        ultimately show ?thesis using lt by simp
      qed
    qed
  qed
qed

lemma loop_counts_unfold:
  "counts (health_loop svc mx probe rc) =
     (if rc < mx \<and> \<not> snd (probe rc) then
        (if Suc rc = mx then [rc, Suc rc] else rc # counts (health_loop svc mx probe (Suc rc)))
      else [rc])"
  by (subst health_loop.simps) (simp add: Let_def)

lemma loop_counts_bounded:
  "rc \<le> mx \<Longrightarrow> c \<in> set (counts (health_loop svc mx probe rc)) \<Longrightarrow> rc \<le> c \<and> c \<le> mx"
proof (induction svc mx probe rc rule: health_loop.induct)
  case (1 svc mx probe rc)
  show ?case
  proof (cases "rc < mx \<and> \<not> snd (probe rc) \<and> Suc rc \<noteq> mx")
    case True
    then have "counts (health_loop svc mx probe rc) = rc # counts (health_loop svc mx probe (Suc rc))"
      by (subst loop_counts_unfold) simp
    with "1.prems" have "c = rc \<or> c \<in> set (counts (health_loop svc mx probe (Suc rc)))"
      by simp
    then show ?thesis
    proof
      assume "c = rc" with "1.prems" show ?thesis by simp
    next
      assume "c \<in> set (counts (health_loop svc mx probe (Suc rc)))"
      with "1.IH" True have "Suc rc \<le> c \<and> c \<le> mx" by simp
      then show ?thesis by simp
    qed
  next
    case False
    then have "counts (health_loop svc mx probe rc) = [rc] \<or>
       (Suc rc = mx \<and> counts (health_loop svc mx probe rc) = [rc, Suc rc])"
      by (subst loop_counts_unfold, subst loop_counts_unfold) auto
    with "1.prems" show ?thesis by auto
  qed
qed

lemma loop_max_count:
  "mx \<in> set (counts (health_loop svc mx probe rc)) \<Longrightarrow> rc < mx \<Longrightarrow>
     ended (health_loop svc mx probe rc) = Exit1"
proof (induction svc mx probe rc rule: health_loop.induct)
  case (1 svc mx probe rc)
  show ?case
  proof (cases "\<not> snd (probe rc) \<and> Suc rc \<noteq> mx")
    case True
    with "1.prems" have c: "counts (health_loop svc mx probe rc) =
        rc # counts (health_loop svc mx probe (Suc rc))"
      by (subst loop_counts_unfold) simp
    from True "1.prems" have e: "ended (health_loop svc mx probe rc) =
        ended (health_loop svc mx probe (Suc rc))"
      by (subst health_loop.simps) (simp add: Let_def)
    from c "1.prems" have "mx \<in> set (counts (health_loop svc mx probe (Suc rc)))"
      by simp
    moreover have "Suc rc < mx" using True "1.prems" by simp
    ultimately have "ended (health_loop svc mx probe (Suc rc)) = Exit1"
      using "1.IH" "1.prems" True by simp
    with e show ?thesis by simp
  next
    case False
    show ?thesis
    proof (cases "snd (probe rc)")
      case True
      with "1.prems" have "counts (health_loop svc mx probe rc) = [rc]"
        by (subst loop_counts_unfold) simp
      with "1.prems" show ?thesis by simp
    next
      case no: False
      with False "1.prems" show ?thesis
        by (subst health_loop.simps) simp
    qed
  qed
qed

lemma loop_attempts_unfold:
  "attempts (health_loop svc mx probe rc) =
     (if rc < mx then
        (if snd (probe rc) \<or> Suc rc = mx then 1
         else Suc (attempts (health_loop svc mx probe (Suc rc))))
      else 0)"
  by (subst health_loop.simps) (simp add: Let_def)

lemma loop_attempts_bounded: "attempts (health_loop svc mx probe rc) \<le> mx - rc"
proof (induction svc mx probe rc rule: health_loop.induct)
  case (1 svc mx probe rc)
  show ?case
  proof (cases "rc < mx \<and> \<not> snd (probe rc) \<and> Suc rc \<noteq> mx")
    case True
    then have "attempts (health_loop svc mx probe rc) =
        Suc (attempts (health_loop svc mx probe (Suc rc)))"
      by (subst loop_attempts_unfold) simp
    moreover have "attempts (health_loop svc mx probe (Suc rc)) \<le> mx - Suc rc"
      using "1.IH" True by simp
    ultimately show ?thesis using True by linarith
  next
    case False
    then show ?thesis
      by (subst loop_attempts_unfold) auto
  qed
qed

lemma loop_never_cond_false:
  "rc < mx \<Longrightarrow> ended (health_loop svc mx probe rc) \<noteq> CondFalse"
proof (induction svc mx probe rc rule: health_loop.induct)
  case (1 svc mx probe rc)
  show ?case
  proof (cases "\<not> snd (probe rc) \<and> Suc rc \<noteq> mx")
    case True
    with "1.prems" have "ended (health_loop svc mx probe rc) =
        ended (health_loop svc mx probe (Suc rc))"
      by (subst health_loop.simps) (simp add: Let_def)
    moreover have "ended (health_loop svc mx probe (Suc rc)) \<noteq> CondFalse"
      using "1.IH" "1.prems" True by simp
    ultimately show ?thesis by simp
  next
    case False
    with "1.prems" show ?thesis
      by (subst health_loop.simps) auto
  qed
qed

lemma loop_events_unfold:
  "events (health_loop svc mx probe rc) =
     (if rc < mx then
        (if snd (probe rc) then fst (probe rc)
         else if Suc rc = mx then fst (probe rc) @ [Error (HealthCheckFailed svc mx)]
         else fst (probe rc) @ [Sleep 3] @ events (health_loop svc mx probe (Suc rc)))
      else [])"
  by (subst health_loop.simps) (simp add: Let_def)

lemma loop_events_no_teardown:
  "(\<And>i ev. ev \<in> set (fst (probe i)) \<Longrightarrow> \<not> teardown ev) \<Longrightarrow>
     ev \<in> set (events (health_loop svc mx probe rc)) \<Longrightarrow> \<not> teardown ev"
proof (induction svc mx probe rc rule: health_loop.induct)
  case (1 svc mx probe rc)
  show ?case
  proof (cases "rc < mx \<and> \<not> snd (probe rc) \<and> Suc rc \<noteq> mx")
    case True
    then have "events (health_loop svc mx probe rc) =
        fst (probe rc) @ [Sleep 3] @ events (health_loop svc mx probe (Suc rc))"
      by (subst loop_events_unfold) simp
    with "1.prems"(2) have "ev \<in> set (fst (probe rc)) \<or> ev = Sleep 3 \<or>
        ev \<in> set (events (health_loop svc mx probe (Suc rc)))"
      by auto
    then show ?thesis
      using "1.prems"(1) "1.IH" True by auto
  next
    case False
    then have "set (events (health_loop svc mx probe rc)) \<subseteq>
        set (fst (probe rc)) \<union> {Error (HealthCheckFailed svc mx)}"
      by (subst loop_events_unfold) auto
    with "1.prems"(2) have "ev \<in> set (fst (probe rc)) \<or> ev = Error (HealthCheckFailed svc mx)"
      by auto
    then show ?thesis using "1.prems"(1) by auto
  qed
qed

lemma health_check_halt:
  "snd (health_check svc probe) = Halt ph c \<Longrightarrow> ph = HealthCheck \<and> c = 1"
  by (auto simp: health_check_def Let_def split: loop_end.splits)

lemma health_check_first_probe:
  "ev \<in> set (fst (probe 0)) \<Longrightarrow> ev \<in> set (fst (health_check svc probe))"
  by (simp add: health_check_def Let_def MAX_RETRIES_def loop_events_unfold [of svc _ probe 0])

lemma health_check_passes:
  "j < MAX_RETRIES \<Longrightarrow> snd (probe j) \<Longrightarrow> snd (health_check svc probe) = Continue"
proof -
  assume "j < MAX_RETRIES" "snd (probe j)"
  then have "ended (health_loop svc MAX_RETRIES probe 0) \<noteq> Exit1"
    using loop_exit_iff [of svc MAX_RETRIES probe 0] by auto
  then show ?thesis
    by (simp add: health_check_def Let_def split: loop_end.splits)
qed

lemma backend_probe_events:
  "ev \<in> set (fst (backend_probe e i)) \<Longrightarrow> \<not> teardown ev"
  by (auto simp: backend_probe_def split: if_splits)

lemma backend_probe_first: "Probe CurlF_Login i \<in> set (fst (backend_probe e i))"
  by (simp add: backend_probe_def)

subsection \<open>Matching\<close>

lemma starts_with_iff: "starts_with p s \<longleftrightarrow> (\<exists>b. s = p @ b)"
  by (induction p s rule: starts_with.induct) auto

lemma grep_line_iff: "grep_line pat s \<longleftrightarrow> (\<exists>a b. s = a @ pat @ b)"
proof (induction s)
  case Nil
  show ?case by (simp add: starts_with_iff)
next
  case (Cons c cs)
  show ?case
  proof
    assume "grep_line pat (c # cs)"
    then consider "starts_with pat (c # cs)" | "grep_line pat cs" by auto
    then show "\<exists>a b. c # cs = a @ pat @ b"
    proof cases
      case 1
      then obtain b where "c # cs = pat @ b" by (auto simp: starts_with_iff)
      then have "c # cs = [] @ pat @ b" by simp
      then show ?thesis by blast
    next
      case 2
      with Cons obtain a b where "cs = a @ pat @ b" by blast
      then have "c # cs = (c # a) @ pat @ b" by simp
      then show ?thesis by blast
    qed
  next
    assume "\<exists>a b. c # cs = a @ pat @ b"
    then obtain a b where ab: "c # cs = a @ pat @ b" by blast
    show "grep_line pat (c # cs)"
    proof (cases a)
      case Nil
      with ab have "starts_with pat (c # cs)" by (simp add: starts_with_iff)
      then show ?thesis by simp
    next
      case (Cons x a')
      with ab have "cs = a' @ pat @ b" by simp
      with Cons.IH have "grep_line pat cs" by blast
      then show ?thesis by simp
    qed
  qed
qed

subsection \<open>The parts of the script\<close>

lemma for_each_continues:
  "(\<And>x. x \<in> set xs \<Longrightarrow> snd (body x) = Continue) \<Longrightarrow>
     for_each body xs = (concat (map (\<lambda>x. fst (body x)) xs), Continue)"
  by (induction xs) (simp_all add: then_run_def)

lemma check_port_eq:
  "check_port e port =
     (if port_in_use e port 0 then
        [Warning (PortInUse port), ComposeDown, Sleep 2] @
        (if port_in_use e port 1 then [Warning (PortStillInUse port)] else [])
      else [], Continue)"
  by (simp add: check_port_def then_run_def errexit_def or_status_def)

lemma check_port_in_use:
  "port_in_use e port 0 \<Longrightarrow>
     check_port e port =
       ([Warning (PortInUse port), ComposeDown, Sleep 2] @
        (if port_in_use e port 1 then [Warning (PortStillInUse port)] else []), Continue)"
  by (simp add: check_port_eq)

lemma port_check_eq:
  "port_check e = (concat (map (\<lambda>port. fst (check_port e port)) REQUIRED_PORTS), Continue)"
  unfolding port_check_def by (rule for_each_continues) (simp add: check_port_eq)

lemma port_check_events:
  "ev \<in> set (fst (port_check e)) \<Longrightarrow> ev = ComposeDown \<or> ev = Sleep 2 \<or> (\<exists>w. ev = Warning w)"
  by (auto simp: port_check_eq check_port_eq split: if_splits)

lemma port_check_free:
  "(\<And>port. port \<in> set REQUIRED_PORTS \<Longrightarrow> \<not> port_in_use e port 0) \<Longrightarrow> fst (port_check e) = []"
  by (simp add: port_check_eq check_port_eq)

lemma environment_validation_eq:
  "environment_validation e =
     (if \<not> has_docker e then ([Error DockerNotInstalled], Halt EnvironmentValidation 1)
      else if \<not> has_docker_compose e \<and> \<not> has_compose_plugin e then
        ([DockerVersion, Error ComposeNotInstalled], Halt EnvironmentValidation 1)
      else if \<not> docker_info_ok e then
        ([DockerVersion, Error DaemonNotRunning], Halt EnvironmentValidation 1)
      else ([DockerVersion], Continue))"
  by (simp add: environment_validation_def require_def then_run_def)

lemma environment_validation_events:
  "ev \<in> set (fst (environment_validation e)) \<Longrightarrow> ev = DockerVersion \<or> (\<exists>er. ev = Error er)"
  by (auto simp: environment_validation_eq split: if_splits)

lemma environment_validation_halt:
  "snd (environment_validation e) = Halt ph c \<Longrightarrow> ph = EnvironmentValidation \<and> c = 1"
  by (auto simp: environment_validation_eq split: if_splits)

lemma file_validation_eq:
  "file_validation e =
     (if \<not> script_dir_ok e then ([], Halt FileValidation 1)
      else if \<not> compose_yaml e \<and> \<not> compose_yml e then
        ([Error ComposeFileNotFound], Halt FileValidation 1)
      else if \<not> banking_backend_dir e then
        ([Error BankingBackendNotFound], Halt FileValidation 1)
      else if \<not> studentportfolio_dir e then
        ([Error StudentPortfolioNotFound], Halt FileValidation 1)
      else if \<not> nginx_conf e then ([Error NginxConfNotFound], Halt FileValidation 1)
      else ([], Continue))"
  by (simp add: file_validation_def require_def then_run_def errexit_def)

lemma file_validation_events:
  "ev \<in> set (fst (file_validation e)) \<Longrightarrow> \<exists>er. ev = Error er"
  by (auto simp: file_validation_eq split: if_splits)

lemma file_validation_halt:
  "snd (file_validation e) = Halt ph c \<Longrightarrow> ph = FileValidation \<and> c = 1"
  by (auto simp: file_validation_eq split: if_splits)

lemma cleanup_eq: "cleanup e = ([ComposeDownV], Continue)"
  by (simp add: cleanup_def errexit_def or_status_def)

lemma build_and_start_eq:
  "build_and_start e =
     (if compose_up_status e = 0 then ([ComposeUp, Sleep 30], Continue)
      else ([ComposeUp], Halt BuildStart (compose_up_status e)))"
  by (simp add: build_and_start_def then_run_def errexit_def)

lemma build_and_start_halt:
  "snd (build_and_start e) = Halt ph c \<Longrightarrow> ph = BuildStart \<and> c \<noteq> 0"
  by (auto simp: build_and_start_eq split: if_splits)

lemma list_images_and_containers_eq:
  "list_images_and_containers e =
     (if grep_E IMAGE_PATTERNS (docker_images_out e) = [] then ([DockerImages], Halt PostDeploy 1)
      else if docker_ps_status e = 0 then ([DockerImages, DockerPs], Continue)
      else ([DockerImages, DockerPs], Halt PostDeploy (docker_ps_status e)))"
  by (simp add: list_images_and_containers_def then_run_def errexit_def grep_status_def)

lemma list_images_and_containers_halt:
  "snd (list_images_and_containers e) = Halt ph c \<Longrightarrow> ph = PostDeploy \<and> c \<noteq> 0"
  by (auto simp: list_images_and_containers_eq split: if_splits)

lemma resolve_nginx_container_eq:
  "resolve_nginx_container e =
     (if docker_ps_nginx_status e \<noteq> 0 then
        ([DockerPsNginx], Halt PostDeploy (docker_ps_nginx_status e))
      else if NGINX_CONTAINER_ID e = [] then
        ([DockerPsNginx, Error NginxContainerNotFound], Halt PostDeploy 1)
      else ([DockerPsNginx], Continue))"
  by (simp add: resolve_nginx_container_def then_run_def errexit_def require_def)

lemma resolve_nginx_container_halt:
  "snd (resolve_nginx_container e) = Halt ph c \<Longrightarrow> ph = PostDeploy \<and> c \<noteq> 0"
  by (auto simp: resolve_nginx_container_eq split: if_splits)

lemma image_inspection_halt:
  "snd (image_inspection e) = Halt ph c \<Longrightarrow> ph = ImageInspection \<and> c \<noteq> 0"
  by (auto simp: image_inspection_def errexit_def split: if_splits)

lemma deploy_halt:
  "snd (deploy e) = Halt ph c \<Longrightarrow>
     c \<noteq> 0 \<and> ph \<in> {EnvironmentValidation, FileValidation, BuildStart, PostDeploy, HealthCheck,
       ImageInspection}"
proof -
  assume "snd (deploy e) = Halt ph c"
  then obtain r where r: "r \<in> set (script e)" "snd r = Halt ph c"
    unfolding deploy_def by (blast dest: steps_halt)
  from r(1) consider "r = environment_validation e" | "r = port_check e" | "r = file_validation e"
    | "r = cleanup e" | "r = build_and_start e" | "r = list_images_and_containers e"
    | "r = resolve_nginx_container e" | "r = health_check Backend (backend_probe e)"
    | "r = health_check Nginx (nginx_probe e)" | "r = image_inspection e" | "r = summary e"
    by (auto simp: script_def)
  then show ?thesis
  proof cases
    case 1 with r(2) show ?thesis by (auto dest: environment_validation_halt)
  next
    case 2 with r(2) show ?thesis by (simp add: port_check_eq)
  next
    case 3 with r(2) show ?thesis by (auto dest: file_validation_halt)
  next
    case 4 with r(2) show ?thesis by (simp add: cleanup_eq)
  next
    case 5 with r(2) show ?thesis by (auto dest: build_and_start_halt)
  next
    case 6 with r(2) show ?thesis by (auto dest: list_images_and_containers_halt)
  next
    case 7 with r(2) show ?thesis by (auto dest: resolve_nginx_container_halt)
  next
    case 8 with r(2) show ?thesis by (auto dest: health_check_halt)
  next
    case 9 with r(2) show ?thesis by (auto dest: health_check_halt)
  next
    case 10 with r(2) show ?thesis by (auto dest: image_inspection_halt)
  next
    case 11 with r(2) show ?thesis by (simp add: summary_def)
  qed
qed

lemma teardown_status_irrelevant: "deploy (e\<lparr>compose_down_v_status := st\<rparr>) = deploy e"
proof -
  let ?e = "e\<lparr>compose_down_v_status := st\<rparr>"
  have "check_port ?e = check_port e"
    by (rule ext) (simp add: check_port_def port_in_use_def)
  then have "port_check ?e = port_check e"
    by (simp add: port_check_def)
  moreover have "backend_probe ?e = backend_probe e"
    by (rule ext) (simp add: backend_probe_def)
  moreover have "nginx_probe ?e = nginx_probe e"
    by (rule ext) (simp add: nginx_probe_def)
  moreover have "environment_validation ?e = environment_validation e"
    by (simp add: environment_validation_def)
  moreover have "file_validation ?e = file_validation e"
    by (simp add: file_validation_def)
  moreover have "cleanup ?e = cleanup e"
    by (simp add: cleanup_eq)
  moreover have "build_and_start ?e = build_and_start e"
    by (simp add: build_and_start_def)
  moreover have "list_images_and_containers ?e = list_images_and_containers e"
    by (simp add: list_images_and_containers_def)
  moreover have "resolve_nginx_container ?e = resolve_nginx_container e"
    by (simp add: resolve_nginx_container_def NGINX_CONTAINER_ID_def)
  moreover have "image_inspection ?e = image_inspection e"
    by (simp add: image_inspection_def)
  moreover have "summary ?e = summary e"
    by (simp add: summary_def)
  ultimately show ?thesis
    by (simp add: deploy_def script_def)
qed

subsection \<open>How far the script gets\<close>

lemma first_three: "take 3 (script e) = [environment_validation e, port_check e, file_validation e]"
  by (simp add: script_def)

lemma after_health_entry:
  "drop 7 (script e) =
     [health_check Backend (backend_probe e), health_check Nginx (nginx_probe e),
      image_inspection e, summary e]"
  by (simp add: script_def)

lemma passes_3:
  "passes 3 e \<longleftrightarrow>
     has_docker e \<and> (has_docker_compose e \<or> has_compose_plugin e) \<and> docker_info_ok e \<and>
     script_dir_ok e \<and> (compose_yaml e \<or> compose_yml e) \<and> banking_backend_dir e \<and>
     studentportfolio_dir e \<and> nginx_conf e"
  by (auto simp: passes_def script_def then_run_def environment_validation_eq port_check_eq
      file_validation_eq split: if_splits)

lemma before_cleanup:
  "passes 3 e \<Longrightarrow> steps (take 3 (script e)) = (DockerVersion # fst (port_check e), Continue)"
  by (simp add: passes_3 script_def then_run_def environment_validation_eq port_check_eq
      file_validation_eq)

lemma passes_5:
  "passes 5 e \<longleftrightarrow> passes 3 e \<and> compose_up_status e = 0"
  by (auto simp: passes_def script_def then_run_def environment_validation_eq port_check_eq
      file_validation_eq cleanup_eq build_and_start_eq split: if_splits)

lemma before_enumeration:
  "passes 5 e \<Longrightarrow>
     steps (take 5 (script e)) =
       (DockerVersion # fst (port_check e) @ [ComposeDownV, ComposeUp, Sleep 30], Continue)"
  by (simp add: passes_5 passes_3 script_def then_run_def environment_validation_eq port_check_eq
      file_validation_eq cleanup_eq build_and_start_eq)

lemma passes_6:
  "passes 6 e \<longleftrightarrow>
     passes 5 e \<and> grep_E IMAGE_PATTERNS (docker_images_out e) \<noteq> [] \<and> docker_ps_status e = 0"
  by (auto simp: passes_def script_def then_run_def environment_validation_eq port_check_eq
      file_validation_eq cleanup_eq build_and_start_eq list_images_and_containers_eq
      split: if_splits)

lemma before_resolution:
  "passes 6 e \<Longrightarrow>
     steps (take 6 (script e)) =
       (DockerVersion # fst (port_check e) @
        [ComposeDownV, ComposeUp, Sleep 30, DockerImages, DockerPs], Continue)"
  by (simp add: passes_6 passes_5 passes_3 script_def then_run_def environment_validation_eq
      port_check_eq file_validation_eq cleanup_eq build_and_start_eq
      list_images_and_containers_eq)

lemma passes_7:
  "passes 7 e \<longleftrightarrow>
     passes 6 e \<and> docker_ps_nginx_status e = 0 \<and> NGINX_CONTAINER_ID e \<noteq> []"
  by (auto simp: passes_def script_def then_run_def environment_validation_eq port_check_eq
      file_validation_eq cleanup_eq build_and_start_eq list_images_and_containers_eq
      resolve_nginx_container_eq split: if_splits)

lemma before_health_checks:
  "passes 7 e \<Longrightarrow>
     steps (take 7 (script e)) =
       (DockerVersion # fst (port_check e) @
        [ComposeDownV, ComposeUp, Sleep 30, DockerImages, DockerPs, DockerPsNginx], Continue)"
  by (simp add: passes_7 passes_6 passes_5 passes_3 script_def then_run_def
      environment_validation_eq port_check_eq file_validation_eq cleanup_eq build_and_start_eq
      list_images_and_containers_eq resolve_nginx_container_eq)

lemma resolution_fails:
  "passes 6 e \<Longrightarrow> docker_ps_nginx_status e \<noteq> 0 \<or> NGINX_CONTAINER_ID e = [] \<Longrightarrow>
     steps (take 7 (script e)) =
       (DockerVersion # fst (port_check e) @
        [ComposeDownV, ComposeUp, Sleep 30, DockerImages, DockerPs, DockerPsNginx] @
        (if docker_ps_nginx_status e \<noteq> 0 then [] else [Error NginxContainerNotFound]),
        Halt PostDeploy
          (if docker_ps_nginx_status e \<noteq> 0 then docker_ps_nginx_status e else 1))"
  by (auto simp add: passes_6 passes_5 passes_3 script_def then_run_def
      environment_validation_eq port_check_eq file_validation_eq cleanup_eq build_and_start_eq
      list_images_and_containers_eq resolve_nginx_container_eq)

lemma missing_required_halts: "missing_required e \<Longrightarrow> \<not> passes 3 e"
  by (auto simp: passes_3 missing_required_def)

subsection \<open>The sample environments\<close>

lemma busy_port_no_conf_run:
  "deploy busy_port_no_conf_env =
     ([DockerVersion, Warning (PortInUse 80), ComposeDown, Sleep 2, Error NginxConfNotFound],
      Halt FileValidation 1)"
  by (simp add: deploy_def script_def then_run_def environment_validation_eq port_check_eq
      check_port_eq file_validation_eq REQUIRED_PORTS_def port_in_use_def
      busy_port_no_conf_env_def healthy_env_def)

lemma healthy_passes: "passes 7 healthy_env"
  by (simp add: passes_7 passes_6 passes_5 passes_3 healthy_env_def NGINX_CONTAINER_ID_def
      grep_E_def IMAGE_PATTERNS_def)

lemma dead_backend_passes: "passes 7 dead_backend_env"
  by (simp add: passes_7 passes_6 passes_5 passes_3 dead_backend_env_def healthy_env_def
      NGINX_CONTAINER_ID_def grep_E_def IMAGE_PATTERNS_def)

lemma dead_backend_counts:
  "counts (health_loop Backend MAX_RETRIES (backend_probe dead_backend_env) 0) =
     [0, 1, 2, 3, 4, 5, 6, 7, 8, 9, 10]"
  by (simp add: health_loop.simps MAX_RETRIES_def backend_probe_def dead_backend_env_def
      healthy_env_def Let_def)

lemma busy_ports_run: "snd (deploy busy_ports_env) = Continue"
  by (simp add: deploy_def script_def then_run_def environment_validation_eq port_check_eq
      file_validation_eq cleanup_eq build_and_start_eq list_images_and_containers_eq
      resolve_nginx_container_eq health_check_def image_inspection_def summary_def errexit_def
      health_loop.simps backend_probe_def nginx_probe_def grep_E_def grep_status_def
      IMAGE_PATTERNS_def NGINX_CONTAINER_ID_def MAX_RETRIES_def Let_def busy_ports_env_def healthy_env_def)

lemma failing_ps_passes: "passes 6 failing_ps_env"
  by (simp add: passes_6 passes_5 passes_3 failing_ps_env_def healthy_env_def
      grep_E_def IMAGE_PATTERNS_def)

lemma no_nginx_passes: "passes 6 no_nginx_env"
  by (simp add: passes_6 passes_5 passes_3 no_nginx_env_def healthy_env_def
      grep_E_def IMAGE_PATTERNS_def)

subsection \<open>Dates\<close>

lemma div_next:
  fixes x c :: int
  assumes "0 < c"
  shows "(x + 1) div c = x div c + (if c dvd (x + 1) then 1 else 0)"
proof (cases "c dvd (x + 1)")
  case True
  then obtain k where k: "x + 1 = c * k" by (auto simp: dvd_def)
  then have "x = c * (k - 1) + (c - 1)" by (simp add: algebra_simps)
  then have "x div c = k - 1"
    using assms by (intro int_div_pos_eq [of x c "k - 1" "c - 1"]) simp_all
  moreover from k have "(x + 1) div c = k" using assms by simp
  ultimately show ?thesis using True by simp
next
  case False
  have "x mod c \<noteq> c - 1"
  proof
    assume "x mod c = c - 1"
    with mult_div_mod_eq [of c x] have "x + 1 = c * (x div c) + c"
      by linarith
    then have "x + 1 = c * (x div c + 1)"
      by (simp add: algebra_simps)
    then have "c dvd (x + 1)" by (metis dvd_triv_left)
    with False show False by simp
  qed
  moreover have "0 \<le> x mod c" "x mod c < c" using assms by simp_all
  ultimately have r: "x mod c + 1 < c" by linarith
  have "x + 1 = c * (x div c) + (x mod c + 1)" by simp
  then have "(x + 1) div c = x div c"
    using r assms \<open>0 \<le> x mod c\<close>
    by (intro int_div_pos_eq [of "x + 1" c "x div c" "x mod c + 1"]) simp_all
  with False show ?thesis by simp
qed

lemma DayFromYear_next:
  "DayFromYear (y + 1) =
     DayFromYear y + 365 + (if 4 dvd y then 1 else 0) - (if 100 dvd y then 1 else 0) +
     (if 400 dvd y then 1 else 0)"
proof -
  have a: "(y + 1 - 1969) div 4 = (y - 1969) div 4 + (if 4 dvd y then 1 else 0)"
  proof -
    have "4 dvd (1968::int)" by simp
    then have "4 dvd (y - 1968) \<longleftrightarrow> 4 dvd y" by (rule dvd_diff_left_iff)
    then have "4 dvd (y - 1969 + 1) \<longleftrightarrow> 4 dvd y" by simp
    with div_next [of 4 "y - 1969"] show ?thesis by (simp add: algebra_simps)
  qed
  have b: "(y + 1 - 1901) div 100 = (y - 1901) div 100 + (if 100 dvd y then 1 else 0)"
  proof -
    have "100 dvd (1900::int)" by simp
    then have "100 dvd (y - 1900) \<longleftrightarrow> 100 dvd y" by (rule dvd_diff_left_iff)
    then have "100 dvd (y - 1901 + 1) \<longleftrightarrow> 100 dvd y" by simp
    with div_next [of 100 "y - 1901"] show ?thesis by (simp add: algebra_simps)
  qed
  have c: "(y + 1 - 1601) div 400 = (y - 1601) div 400 + (if 400 dvd y then 1 else 0)"
  proof -
    have "400 dvd (1600::int)" by simp
    then have "400 dvd (y - 1600) \<longleftrightarrow> 400 dvd y" by (rule dvd_diff_left_iff)
    then have "400 dvd (y - 1601 + 1) \<longleftrightarrow> 400 dvd y" by simp
    with div_next [of 400 "y - 1601"] show ?thesis by (simp add: algebra_simps)
  qed
  show ?thesis
    unfolding DayFromYear_def a b c by simp
qed

lemma DayFromYear_step:
  "DayFromYear y + 365 \<le> DayFromYear (y + 1) \<and> DayFromYear (y + 1) \<le> DayFromYear y + 366"
proof -
  have a: "100 dvd y \<Longrightarrow> 4 dvd y" by (rule dvd_trans [of 4 100]) simp_all
  have b: "400 dvd y \<Longrightarrow> 100 dvd y" by (rule dvd_trans [of 100 400]) simp_all
  show ?thesis
  proof (cases "400 dvd y")
    case True
    with a b show ?thesis by (simp add: DayFromYear_next)
  next
    case n400: False
    show ?thesis
    proof (cases "100 dvd y")
      case True
      with a n400 show ?thesis by (simp add: DayFromYear_next)
    next
      case False
      with n400 show ?thesis by (simp add: DayFromYear_next)
    qed
  qed
qed

lemma DayFromYear_1970: "DayFromYear 1970 = 0"
  by (simp add: DayFromYear_def)

lemma DayFromYear_upper: "0 \<le> k \<Longrightarrow> DayFromYear (1970 + k) \<le> 366 * k"
proof (induction k rule: int_ge_induct)
  case base
  show ?case by (simp add: DayFromYear_1970)
next
  case (step i)
  have "DayFromYear (1970 + i + 1) \<le> DayFromYear (1970 + i) + 366"
    using DayFromYear_step [of "1970 + i"] by simp
  with step show ?case by (simp add: algebra_simps)
qed

lemma DayFromYear_lower: "k \<le> 0 \<Longrightarrow> DayFromYear (1970 + k) \<le> 365 * k"
proof (induction k rule: int_le_induct)
  case base
  show ?case by (simp add: DayFromYear_1970)
next
  case (step i)
  have "DayFromYear (1970 + (i - 1)) + 365 \<le> DayFromYear (1970 + (i - 1) + 1)"
    using DayFromYear_step [of "1970 + (i - 1)"] by simp
  with step show ?case by (simp add: algebra_simps)
qed

lemma year_from_spec:
  "DayFromYear y \<le> d \<Longrightarrow>
     DayFromYear (year_from d y) \<le> d \<and> d < DayFromYear (year_from d y + 1)"
proof (induction d y rule: year_from.induct)
  case (1 d y)
  show ?case
  proof (cases "DayFromYear (y + 1) \<le> d")
    case True
    then have "year_from d y = year_from d (y + 1)"
      by (subst year_from.simps) simp
    with "1.IH" True show ?thesis by simp
  next
    case False
    then have "year_from d y = y"
      by (subst year_from.simps) simp
    with False "1.prems" show ?thesis by simp
  qed
qed

lemma estimate_below:
  "DayFromYear (1970 + (if 0 \<le> d then d div 366 else d div 365)) \<le> d"
proof (cases "0 \<le> d")
  case True
  then have "0 \<le> d div 366" by simp
  then have "DayFromYear (1970 + d div 366) \<le> 366 * (d div 366)"
    by (rule DayFromYear_upper)
  also have "\<dots> \<le> d" by simp
  finally show ?thesis using True by simp
next
  case False
  then have "d div 365 < 0" by (intro div_neg_pos_less0) simp_all
  then have "d div 365 \<le> 0" by simp
  then have "DayFromYear (1970 + d div 365) \<le> 365 * (d div 365)"
    by (rule DayFromYear_lower)
  also have "\<dots> \<le> d" by simp
  finally show ?thesis using False by simp
qed

lemma YearFromTime_spec:
  "DayFromYear (YearFromTime t) \<le> Day t \<and> Day t < DayFromYear (YearFromTime t + 1)"
  unfolding YearFromTime_def by (rule year_from_spec) (rule estimate_below)

lemma InLeapYear_eq:
  "InLeapYear t =
     (if 4 dvd YearFromTime t \<and> (100 dvd YearFromTime t \<longrightarrow> 400 dvd YearFromTime t)
      then 1 else 0)"
proof -
  let ?y = "YearFromTime t"
  have a: "100 dvd ?y \<Longrightarrow> 4 dvd ?y" by (rule dvd_trans [of 4 100]) simp_all
  have b: "400 dvd ?y \<Longrightarrow> 100 dvd ?y" by (rule dvd_trans [of 100 400]) simp_all
  show ?thesis
  proof (cases "400 dvd ?y")
    case True
    with a b show ?thesis by (simp add: InLeapYear_def DayFromYear_next)
  next
    case n400: False
    show ?thesis
    proof (cases "100 dvd ?y")
      case True
      with a n400 show ?thesis by (simp add: InLeapYear_def DayFromYear_next)
    next
      case False
      with n400 show ?thesis by (simp add: InLeapYear_def DayFromYear_next)
    qed
  qed
qed

subsection \<open>Grouping by month\<close>

lemma map_of_group_step:
  "map_of (group_step z acc t) k =
     (if monthYear z t = k then
        Some ((case map_of acc k of None \<Rightarrow> [] | Some es \<Rightarrow> es) @ [returned_entry t])
      else map_of acc k)"
  by (auto simp: group_step_def Let_def AList.map_of_map_entry AList.update_conv'
      split: option.splits)

lemma distinct_group_step:
  "distinct (map fst acc) \<Longrightarrow> distinct (map fst (group_step z acc t))"
  by (simp add: group_step_def Let_def AList.distinct_map_entry AList.distinct_update)

lemma map_of_foldl_group:
  "map_of (foldl (group_step z) acc ts) k =
     (if filter (\<lambda>t. monthYear z t = k) ts = [] then map_of acc k
      else Some ((case map_of acc k of None \<Rightarrow> [] | Some es \<Rightarrow> es) @
                 map returned_entry (filter (\<lambda>t. monthYear z t = k) ts)))"
proof (induction ts arbitrary: acc)
  case Nil
  show ?case by simp
next
  case (Cons t ts)
  show ?case
    by (simp add: Cons map_of_group_step)
qed

lemma distinct_foldl_group:
  "distinct (map fst acc) \<Longrightarrow> distinct (map fst (foldl (group_step z) acc ts))"
  by (induction ts arbitrary: acc) (simp_all add: distinct_group_step)

lemma mset_update_empty:
  "map_of acc k = None \<Longrightarrow>
     mset (concat (map snd (AList.update k [] acc))) = mset (concat (map snd acc))"
  by (induction acc) (auto split: if_splits)

lemma mset_map_entry:
  "map_of acc k \<noteq> None \<Longrightarrow>
     mset (concat (map snd (AList.map_entry k (\<lambda>es. es @ [x]) acc))) =
       mset (concat (map snd acc)) + {#x#}"
  by (induction acc) (auto split: if_splits)

lemma mset_group_step:
  "mset (concat (map snd (group_step z acc t))) =
     mset (concat (map snd acc)) + {#returned_entry t#}"
proof (cases "map_of acc (monthYear z t)")
  case None
  have "map_of (AList.update (monthYear z t) [] acc) (monthYear z t) \<noteq> None"
    by (simp add: AList.update_conv')
  then have "mset (concat (map snd (AList.map_entry (monthYear z t)
        (\<lambda>es. es @ [returned_entry t]) (AList.update (monthYear z t) [] acc)))) =
      mset (concat (map snd (AList.update (monthYear z t) [] acc))) + {#returned_entry t#}"
    by (rule mset_map_entry)
  also have "mset (concat (map snd (AList.update (monthYear z t) [] acc))) =
      mset (concat (map snd acc))"
    using None by (rule mset_update_empty)
  finally show ?thesis
    using None by (simp add: group_step_def Let_def)
next
  case (Some es)
  then have "map_of acc (monthYear z t) \<noteq> None" by simp
  then have "mset (concat (map snd (AList.map_entry (monthYear z t)
        (\<lambda>es. es @ [returned_entry t]) acc))) =
      mset (concat (map snd acc)) + {#returned_entry t#}"
    by (rule mset_map_entry)
  then show ?thesis
    using Some by (simp add: group_step_def Let_def)
qed

lemma mset_foldl_group:
  "mset (concat (map snd (foldl (group_step z) acc ts))) =
     mset (concat (map snd acc)) + mset (map returned_entry ts)"
  by (induction ts arbitrary: acc) (simp_all add: mset_group_step)

lemma MonthFromTime_less: "MonthFromTime t < 12"
  by (simp add: MonthFromTime_def Let_def)

lemma month_long_cases:
  "(m::nat) < 12 \<Longrightarrow>
     m = 0 \<or> m = 1 \<or> m = 2 \<or> m = 3 \<or> m = 4 \<or> m = 5 \<or> m = 6 \<or> m = 7 \<or> m = 8 \<or> m = 9 \<or>
     m = 10 \<or> m = 11"
  by arith

lemma month_long_no_space: "m < 12 \<Longrightarrow> CHR '' '' \<notin> set (month_long m)"
  by (drule month_long_cases) (auto simp: month_long_def)

lemma month_long_inj:
  "m < 12 \<Longrightarrow> n < 12 \<Longrightarrow> month_long m = month_long n \<Longrightarrow> m = n"
  by (drule month_long_cases, drule month_long_cases) (auto simp: month_long_def)

lemma month_long_not_Invalid: "m < 12 \<Longrightarrow> month_long m \<noteq> ''Invalid''"
  by (drule month_long_cases) (auto simp: month_long_def)

lemma split_at_space:
  "CHR '' '' \<notin> set a \<Longrightarrow> CHR '' '' \<notin> set b \<Longrightarrow>
     a @ CHR '' '' # x = b @ CHR '' '' # y \<Longrightarrow> a = b \<and> x = y"
proof (induction a arbitrary: b)
  case Nil
  then show ?case by (cases b) auto
next
  case (Cons c a)
  then show ?case by (cases b) auto
qed



lemma decimal_value_snoc:
  "decimal_value (cs @ [c]) = 10 * decimal_value cs + (of_char c - 48)"
  by (induction cs) (simp_all add: algebra_simps)

lemma digit_cases:
  "(d::nat) < 10 \<Longrightarrow>
     d = 0 \<or> d = 1 \<or> d = 2 \<or> d = 3 \<or> d = 4 \<or> d = 5 \<or> d = 6 \<or> d = 7 \<or> d = 8 \<or> d = 9"
  by arith

lemma digit_value: "d < 10 \<Longrightarrow> of_char (digit d) - 48 = d"
  by (drule digit_cases) (auto simp: digit_def)

lemma decimal_value_decimal: "decimal_value (decimal n) = n"
proof (induction n rule: decimal.induct)
  case (1 n)
  show ?case
  proof (cases "n < 10")
    case True
    then show ?thesis
      by (subst decimal.simps) (simp add: digit_value)
  next
    case False
    then have "decimal n = decimal (n div 10) @ [digit (n mod 10)]"
      by (subst decimal.simps) simp
    then show ?thesis
      using "1.IH" False by (simp add: decimal_value_snoc digit_value)
  qed
qed

lemma decimal_inj: "decimal a = decimal b \<Longrightarrow> a = b"
  by (metis decimal_value_decimal)

lemma toLocaleString_valid:
  "toLocaleString z (Some u) \<noteq> ''Invalid Date''"
proof
  assume "toLocaleString z (Some u) = ''Invalid Date''"
  then have "month_long (MonthFromTime (LocalTime z u)) @
      CHR '' '' # year_numeric (YearFromTime (LocalTime z u)) = ''Invalid'' @ CHR '' '' # ''Date''"
    by (simp add: toLocaleString_def)
  then have "month_long (MonthFromTime (LocalTime z u)) = ''Invalid''"
    using split_at_space [of "month_long (MonthFromTime (LocalTime z u))" "''Invalid''"]
      month_long_no_space [OF MonthFromTime_less]
    by simp
  then show False
    using month_long_not_Invalid [OF MonthFromTime_less] by blast
qed

lemma toLocaleString_inj:
  assumes "1 \<le> YearFromTime (LocalTime z u)" and "1 \<le> YearFromTime (LocalTime z v)"
  shows "toLocaleString z (Some u) = toLocaleString z (Some v) \<longleftrightarrow>
     MonthFromTime (LocalTime z u) = MonthFromTime (LocalTime z v) \<and>
     YearFromTime (LocalTime z u) = YearFromTime (LocalTime z v)"
proof
  assume "toLocaleString z (Some u) = toLocaleString z (Some v)"
  then have "month_long (MonthFromTime (LocalTime z u)) @
      CHR '' '' # year_numeric (YearFromTime (LocalTime z u)) =
      month_long (MonthFromTime (LocalTime z v)) @
      CHR '' '' # year_numeric (YearFromTime (LocalTime z v))"
    by (simp add: toLocaleString_def)
  then have m: "month_long (MonthFromTime (LocalTime z u)) =
      month_long (MonthFromTime (LocalTime z v))"
    and y: "year_numeric (YearFromTime (LocalTime z u)) =
      year_numeric (YearFromTime (LocalTime z v))"
    using split_at_space month_long_no_space [OF MonthFromTime_less] by blast+
  from m have "MonthFromTime (LocalTime z u) = MonthFromTime (LocalTime z v)"
    using month_long_inj [OF MonthFromTime_less MonthFromTime_less] by blast
  moreover from y assms have "YearFromTime (LocalTime z u) = YearFromTime (LocalTime z v)"
    by (auto simp: year_numeric_def dest!: decimal_inj)
  ultimately show "MonthFromTime (LocalTime z u) = MonthFromTime (LocalTime z v) \<and>
     YearFromTime (LocalTime z u) = YearFromTime (LocalTime z v)" by simp
next
  assume "MonthFromTime (LocalTime z u) = MonthFromTime (LocalTime z v) \<and>
     YearFromTime (LocalTime z u) = YearFromTime (LocalTime z v)"
  then show "toLocaleString z (Some u) = toLocaleString z (Some v)"
    by (simp add: toLocaleString_def)
qed

lemmas date_eval =
  monthYear_def toLocaleString_def new_Date_def TimeClip_def LocalTime_def
  YearFromTime_def MonthFromTime_def DayWithinYear_def InLeapYear_def Day_def msPerDay_def
  DayFromYear_def year_from.simps year_numeric_def decimal.simps digit_def month_long_def
  Let_def

lemma sample_run_utc:
  "app_get utc_server (Some sample_store) ''a@x.ca'' =
     Json [(''March 2024'',
            [\<lparr>type = ''deposit'', amount = 600, timestamp = TimeValue 1711924200000\<rparr>,
             \<lparr>type = ''withdraw'', amount = 5, timestamp = TimeValue 1709300000000\<rparr>]),
           (''Invalid Date'',
            [\<lparr>type = ''withdraw'', amount = 20, timestamp = NotADate\<rparr>])]"
  by (simp add: app_get_def get_transactions_def groupedByMonth_def find_email_def
      group_step_def returned_entry_def sample_store_def utc_server_def date_eval)

lemma sample_run_utc_plus_2:
  "app_get utc_plus_2_server (Some sample_store) ''a@x.ca'' =
     Json [(''April 2024'',
            [\<lparr>type = ''deposit'', amount = 600, timestamp = TimeValue 1711924200000\<rparr>]),
           (''Invalid Date'',
            [\<lparr>type = ''withdraw'', amount = 20, timestamp = NotADate\<rparr>]),
           (''March 2024'',
            [\<lparr>type = ''withdraw'', amount = 5, timestamp = TimeValue 1709300000000\<rparr>])]"
  by (simp add: app_get_def get_transactions_def groupedByMonth_def find_email_def
      group_step_def returned_entry_def sample_store_def utc_plus_2_server_def date_eval)

section \<open>The claims\<close>

text \<open>
  C1 (as amended): when a required file or directory is absent (neither compose file, or
  \<^verbatim>\<open>banking-backend\<close>, or \<^verbatim>\<open>studentportfolio\<close>, or \<^verbatim>\<open>nginx.conf\<close>), the script halts with a
  non-zero status in the environment validation or in the file validation; the cleanup
  (\<^verbatim>\<open>docker-compose down -v\<close>) and the build/start (\<^verbatim>\<open>docker-compose up --build -d\<close>) are
  never run. The only container action that can precede the halt is the teardown
  \<^verbatim>\<open>docker-compose down\<close> of the port check, and when no required port is found in use no
  container action is attempted at all.
\<close>

theorem missing_file_halts_before_cleanup:
  assumes "missing_required e"
  shows "(\<exists>ph c. snd (deploy e) = Halt ph c \<and> c \<noteq> 0 \<and>
            (ph = EnvironmentValidation \<or> ph = FileValidation)) \<and>
         ComposeDownV \<notin> set (fst (deploy e)) \<and>
         ComposeUp \<notin> set (fst (deploy e)) \<and>
         (\<forall>ev\<in>set (fst (deploy e)). container_action ev \<longrightarrow> ev = ComposeDown) \<and>
         ((\<forall>port\<in>set REQUIRED_PORTS. \<not> port_in_use e port 0) \<longrightarrow>
            (\<forall>ev\<in>set (fst (deploy e)). \<not> container_action ev))"
proof -
  from assms have np: "\<not> passes 3 e" by (rule missing_required_halts)
  then have d: "deploy e = steps [environment_validation e, port_check e, file_validation e]"
    using deploy_before [of 3 e] by (simp add: first_three)
  from np obtain ph c where h: "snd (deploy e) = Halt ph c"
    unfolding passes_def d first_three
    by (cases "snd (steps [environment_validation e, port_check e, file_validation e])") auto
  then have "\<exists>r\<in>set [environment_validation e, port_check e, file_validation e].
      snd r = Halt ph c"
    unfolding d by (rule steps_halt)
  then have halt: "c \<noteq> 0 \<and> (ph = EnvironmentValidation \<or> ph = FileValidation)"
    by (auto simp: port_check_eq dest: environment_validation_halt file_validation_halt)
  have evs: "ev = DockerVersion \<or> (\<exists>er. ev = Error er) \<or> ev \<in> set (fst (port_check e))"
    if "ev \<in> set (fst (deploy e))" for ev
  proof -
    from that have "\<exists>r\<in>set [environment_validation e, port_check e, file_validation e].
        ev \<in> set (fst r)"
      unfolding d by (rule steps_events)
    then show ?thesis
      by (auto dest: environment_validation_events file_validation_events)
  qed
  have kinds: "ev = DockerVersion \<or> (\<exists>er. ev = Error er) \<or> ev = ComposeDown \<or> ev = Sleep 2 \<or>
      (\<exists>w. ev = Warning w)" if "ev \<in> set (fst (deploy e))" for ev
    using evs [OF that] port_check_events [of ev e] by blast
  have a: "ComposeDownV \<notin> set (fst (deploy e))"
    using kinds [of ComposeDownV] by auto
  have b: "ComposeUp \<notin> set (fst (deploy e))"
    using kinds [of ComposeUp] by auto
  have c: "\<forall>ev\<in>set (fst (deploy e)). container_action ev \<longrightarrow> ev = ComposeDown"
    using kinds by fastforce
  have f: "(\<forall>port\<in>set REQUIRED_PORTS. \<not> port_in_use e port 0) \<longrightarrow>
            (\<forall>ev\<in>set (fst (deploy e)). \<not> container_action ev)"
  proof (intro impI ballI)
    fix ev
    assume free: "\<forall>port\<in>set REQUIRED_PORTS. \<not> port_in_use e port 0"
      and ev: "ev \<in> set (fst (deploy e))"
    from free have "fst (port_check e) = []" by (simp add: port_check_free)
    with evs [OF ev] show "\<not> container_action ev" by auto
  qed
  from h halt a b c f show ?thesis by blast
qed

theorem missing_file_halts_before_cleanup_witness:
  "missing_required busy_port_no_conf_env \<and>
   snd (deploy busy_port_no_conf_env) = Halt FileValidation 1 \<and>
   ComposeDownV \<notin> set (fst (deploy busy_port_no_conf_env)) \<and>
   ComposeUp \<notin> set (fst (deploy busy_port_no_conf_env))"
proof -
  have m: "missing_required busy_port_no_conf_env"
    by (simp add: missing_required_def busy_port_no_conf_env_def healthy_env_def)
  from missing_file_halts_before_cleanup [OF m] m show ?thesis
    by (simp add: busy_port_no_conf_run)
qed

theorem teardown_before_file_validation:
  "missing_required busy_port_no_conf_env \<and>
   fst (deploy busy_port_no_conf_env) =
     [DockerVersion, Warning (PortInUse 80), ComposeDown, Sleep 2, Error NginxConfNotFound] \<and>
   container_action ComposeDown"
proof -
  have "missing_required busy_port_no_conf_env"
    by (simp add: missing_required_def busy_port_no_conf_env_def healthy_env_def)
  then show ?thesis by (simp add: busy_port_no_conf_run)
qed

text \<open>
  C2: with the attempt budget \<open>MAX_RETRIES = 10\<close>, polling succeeds at attempt \<open>K\<close>
  (\<open>1 \<le> K \<le> MAX_RETRIES\<close>) exactly when the probe succeeds at attempt \<open>K\<close> and fails at
  each of the \<open>K - 1\<close> attempts before it (attempt \<open>K\<close> is the probe run with
  \<^verbatim>\<open>RETRY_COUNT\<close> equal to \<open>K - 1\<close>); the loop leaves by \<^verbatim>\<open>exit 1\<close>, which halts the script
  in the health-check phase, exactly when all \<open>MAX_RETRIES\<close> attempts fail. The two loops of
  the script are the instances \<open>health_check Backend (backend_probe e)\<close> and
  \<open>health_check Nginx (nginx_probe e)\<close>.
\<close>

theorem health_check_polling:
  "(1 \<le> K \<and> K \<le> MAX_RETRIES \<longrightarrow>
      (succeeds_at (health_loop svc MAX_RETRIES probe 0) K \<longleftrightarrow>
         snd (probe (K - 1)) \<and> (\<forall>i<K - 1. \<not> snd (probe i)))) \<and>
   (ended (health_loop svc MAX_RETRIES probe 0) = Exit1 \<longleftrightarrow>
      (\<forall>i<MAX_RETRIES. \<not> snd (probe i))) \<and>
   (snd (health_check svc probe) = Halt HealthCheck 1 \<longleftrightarrow>
      (\<forall>i<MAX_RETRIES. \<not> snd (probe i))) \<and>
   (snd (health_check svc probe) = Continue \<longleftrightarrow>
      (\<exists>i<MAX_RETRIES. snd (probe i)))"
proof -
  have pos: "0 < MAX_RETRIES" by (simp add: MAX_RETRIES_def)
  have a: "1 \<le> K \<and> K \<le> MAX_RETRIES \<longrightarrow>
      (succeeds_at (health_loop svc MAX_RETRIES probe 0) K \<longleftrightarrow>
         snd (probe (K - 1)) \<and> (\<forall>i<K - 1. \<not> snd (probe i)))"
  proof
    assume k: "1 \<le> K \<and> K \<le> MAX_RETRIES"
    then obtain m where m: "K = Suc m" by (cases K) auto
    with k have "m < MAX_RETRIES" by simp
    with loop_break_iff [of svc MAX_RETRIES probe 0 m] m
    show "succeeds_at (health_loop svc MAX_RETRIES probe 0) K \<longleftrightarrow>
         snd (probe (K - 1)) \<and> (\<forall>i<K - 1. \<not> snd (probe i))"
      by simp
  qed
  have b: "ended (health_loop svc MAX_RETRIES probe 0) = Exit1 \<longleftrightarrow>
      (\<forall>i<MAX_RETRIES. \<not> snd (probe i))"
    using loop_exit_iff [of svc MAX_RETRIES probe 0] pos by simp
  have c: "snd (health_check svc probe) = Halt HealthCheck 1 \<longleftrightarrow>
      ended (health_loop svc MAX_RETRIES probe 0) = Exit1"
    by (simp add: health_check_def Let_def split: loop_end.splits)
  have d: "snd (health_check svc probe) = Continue \<longleftrightarrow>
      ended (health_loop svc MAX_RETRIES probe 0) \<noteq> Exit1"
    by (simp add: health_check_def Let_def split: loop_end.splits)
  from a b c d show ?thesis by simp
qed

theorem health_check_polling_witness:
  "1 \<le> (3::nat) \<and> 3 \<le> MAX_RETRIES \<and>
   succeeds_at (health_loop Backend MAX_RETRIES (backend_probe healthy_env) 0) 3 \<and>
   snd (health_check Backend (backend_probe dead_backend_env)) = Halt HealthCheck 1"
  using health_check_polling [of 3 Backend "backend_probe healthy_env"]
    health_check_polling [of 3 Backend "backend_probe dead_backend_env"]
  by (simp add: MAX_RETRIES_def backend_probe_def healthy_env_def dead_backend_env_def)

text \<open>
  C3: when the script reaches the health checks and the backend probe fails at every one of
  the \<open>MAX_RETRIES\<close> attempts, the script halts in the health-check phase with status 1;
  \<^verbatim>\<open>docker-compose up --build -d\<close> has run before, and no teardown command is run after it.
\<close>

theorem backend_failure_leaves_containers_running:
  assumes "reaches_health_checks e"
    and "\<forall>i<MAX_RETRIES. \<not> snd (backend_probe e i)"
  shows "snd (deploy e) = Halt HealthCheck 1 \<and> exit_code (deploy e) \<noteq> 0 \<and>
         (\<exists>pre post. fst (deploy e) = pre @ ComposeUp # post \<and>
            (\<forall>ev\<in>set post. \<not> teardown ev))"
proof -
  let ?loop = "health_loop Backend MAX_RETRIES (backend_probe e) 0"
  from assms(1) have p: "passes 7 e" by (simp add: reaches_health_checks_def)
  have "ended ?loop = Exit1"
    using assms(2) loop_exit_iff [of Backend MAX_RETRIES "backend_probe e" 0]
    by (simp add: MAX_RETRIES_def)
  then have hc: "health_check Backend (backend_probe e) = (events ?loop, Halt HealthCheck 1)"
    by (simp add: health_check_def Let_def)
  have rest: "steps (drop 7 (script e)) = (events ?loop, Halt HealthCheck 1)"
    by (simp add: after_health_entry hc then_run_def)
  from deploy_after [OF p] have d: "deploy e =
      ((DockerVersion # fst (port_check e) @ [ComposeDownV]) @
        ComposeUp # ([Sleep 30, DockerImages, DockerPs, DockerPsNginx] @ events ?loop),
       Halt HealthCheck 1)"
    by (simp add: before_health_checks [OF p] rest)
  let ?pre = "DockerVersion # fst (port_check e) @ [ComposeDownV]"
  let ?post = "[Sleep 30, DockerImages, DockerPs, DockerPsNginx] @ events ?loop"
  have t: "fst (deploy e) = ?pre @ ComposeUp # ?post"
    by (simp add: d)
  have "\<forall>ev\<in>set ?post. \<not> teardown ev"
    using loop_events_no_teardown [of "backend_probe e" _ Backend MAX_RETRIES 0]
      backend_probe_events [of _ e]
    by auto
  with t have "\<exists>pre post. fst (deploy e) = pre @ ComposeUp # post \<and>
      (\<forall>ev\<in>set post. \<not> teardown ev)"
    by blast
  moreover have "snd (deploy e) = Halt HealthCheck 1"
    by (simp add: d)
  ultimately show ?thesis
    by (simp add: exit_code_def)
qed

theorem backend_failure_leaves_containers_running_witness:
  "reaches_health_checks dead_backend_env \<and>
   list_all (\<lambda>i. \<not> snd (backend_probe dead_backend_env i)) [0..<MAX_RETRIES] \<and>
   snd (deploy dead_backend_env) = Halt HealthCheck 1 \<and>
   exit_code (deploy dead_backend_env) \<noteq> 0"
proof -
  have r: "reaches_health_checks dead_backend_env"
    by (simp add: reaches_health_checks_def dead_backend_passes)
  have n: "\<forall>i<MAX_RETRIES. \<not> snd (backend_probe dead_backend_env i)"
    by (simp add: backend_probe_def dead_backend_env_def healthy_env_def)
  then have "list_all (\<lambda>i. \<not> snd (backend_probe dead_backend_env i)) [0..<MAX_RETRIES]"
    by (simp add: list_all_iff)
  with backend_failure_leaves_containers_running [OF r n] r show ?thesis
    by blast
qed

text \<open>
  C4: the cleanup never halts the script. Its status is always \<open>Continue\<close>, the script never
  halts in the cleanup phase, the whole run is the same whatever status the teardown
  \<^verbatim>\<open>docker-compose down -v\<close> returns, and whenever the cleanup is reached the build/start
  command is the next command run.
\<close>

theorem cleanup_never_halts:
  "snd (cleanup e) = Continue \<and>
   (\<forall>c. snd (deploy e) \<noteq> Halt Cleanup c) \<and>
   deploy (e\<lparr>compose_down_v_status := st\<rparr>) = deploy e \<and>
   (reaches_cleanup e \<longrightarrow>
      (\<exists>post. fst (deploy e) =
         DockerVersion # fst (port_check e) @ ComposeDownV # ComposeUp # post))"
proof -
  have a: "snd (cleanup e) = Continue"
    by (simp add: cleanup_eq)
  have b: "\<forall>c. snd (deploy e) \<noteq> Halt Cleanup c"
    using deploy_halt [of e Cleanup] by auto
  have c: "\<exists>post. fst (deploy e) =
      DockerVersion # fst (port_check e) @ ComposeDownV # ComposeUp # post"
    if "reaches_cleanup e"
  proof -
    from that have p: "passes 3 e" by (simp add: reaches_cleanup_def)
    have "fst (steps (drop 3 (script e))) =
        ComposeDownV # ComposeUp # (if compose_up_status e = 0
          then Sleep 30 # fst (steps (drop 5 (script e))) else [])"
      by (simp add: script_def cleanup_eq build_and_start_eq then_run_def)
    with deploy_after [OF p] before_cleanup [OF p] show ?thesis
      by simp
  qed
  from a b c teardown_status_irrelevant [of st e] show ?thesis by blast
qed

theorem cleanup_never_halts_witness:
  "compose_down_v_status healthy_env \<noteq> 0 \<and> reaches_cleanup healthy_env \<and>
   (\<exists>post. fst (deploy healthy_env) =
      DockerVersion # fst (port_check healthy_env) @ ComposeDownV # ComposeUp # post)"
proof -
  have "passes 3 healthy_env"
    by (simp add: passes_3 healthy_env_def)
  then have r: "reaches_cleanup healthy_env"
    by (simp add: reaches_cleanup_def)
  moreover have "compose_down_v_status healthy_env \<noteq> 0"
    by (simp add: healthy_env_def)
  ultimately show ?thesis
    using cleanup_never_halts [of healthy_env] by blast
qed

text \<open>
  C5: for a required port found in use, the port check warns, runs \<^verbatim>\<open>docker-compose down\<close>,
  sleeps 2 seconds and checks again; when the port is still in use it only warns. The port
  check is this sequence for each of the required ports in turn and always continues: the
  script never halts in the port check, and when it reaches the port check it reaches the
  file validation.
\<close>

theorem port_conflict_is_warning_only:
  "(port \<in> set REQUIRED_PORTS \<and> port_in_use e port 0 \<longrightarrow>
      check_port e port =
        ([Warning (PortInUse port), ComposeDown, Sleep 2] @
         (if port_in_use e port 1 then [Warning (PortStillInUse port)] else []), Continue)) \<and>
   port_check e = (concat (map (\<lambda>port. fst (check_port e port)) REQUIRED_PORTS), Continue) \<and>
   (\<forall>c. snd (deploy e) \<noteq> Halt PortCheck c) \<and>
   (passes 1 e \<longrightarrow> passes 2 e)"
proof -
  have "\<forall>c. snd (deploy e) \<noteq> Halt PortCheck c"
    using deploy_halt [of e PortCheck] by auto
  moreover have "passes 1 e \<longrightarrow> passes 2 e"
    by (simp add: passes_def script_def then_run_def port_check_eq split: status.splits)
  ultimately show ?thesis
    using check_port_in_use [of e port] port_check_eq [of e] by blast
qed

theorem port_conflict_is_warning_only_witness:
  "27017 \<in> set REQUIRED_PORTS \<and> port_in_use busy_ports_env 27017 0 \<and>
   port_in_use busy_ports_env 27017 1 \<and>
   check_port busy_ports_env 27017 =
     ([Warning (PortInUse 27017), ComposeDown, Sleep 2, Warning (PortStillInUse 27017)],
      Continue) \<and>
   passes 1 busy_ports_env \<and> passes 2 busy_ports_env \<and>
   exit_code (deploy busy_ports_env) = 0"
proof -
  have a: "27017 \<in> set REQUIRED_PORTS"
    by (simp add: REQUIRED_PORTS_def)
  have b: "port_in_use busy_ports_env 27017 0" "port_in_use busy_ports_env 27017 1"
    by (simp_all add: port_in_use_def busy_ports_env_def)
  have c: "passes 1 busy_ports_env"
    by (simp add: passes_def script_def then_run_def environment_validation_eq
        busy_ports_env_def healthy_env_def)
  have d: "exit_code (deploy busy_ports_env) = 0"
    by (simp add: exit_code_def busy_ports_run)
  from port_conflict_is_warning_only [of 27017 busy_ports_env] a b c d show ?thesis
    by simp
qed

text \<open>
  C6: in either health-check loop every value taken by \<^verbatim>\<open>RETRY_COUNT\<close> is at most
  \<open>MAX_RETRIES\<close>; the probe runs at most \<open>MAX_RETRIES\<close> times; and once the counter has
  reached \<open>MAX_RETRIES\<close> the loop has ended by \<^verbatim>\<open>exit 1\<close>. The loop always ends, by
  \<^verbatim>\<open>break\<close> or by \<^verbatim>\<open>exit 1\<close>.
\<close>

theorem retry_counter_bounded:
  "(\<forall>c\<in>set (counts (health_loop svc MAX_RETRIES probe 0)). c \<le> MAX_RETRIES) \<and>
   attempts (health_loop svc MAX_RETRIES probe 0) \<le> MAX_RETRIES \<and>
   (MAX_RETRIES \<in> set (counts (health_loop svc MAX_RETRIES probe 0)) \<longrightarrow>
      ended (health_loop svc MAX_RETRIES probe 0) = Exit1) \<and>
   ended (health_loop svc MAX_RETRIES probe 0) \<noteq> CondFalse"
proof -
  have pos: "0 < MAX_RETRIES" by (simp add: MAX_RETRIES_def)
  have "\<forall>c\<in>set (counts (health_loop svc MAX_RETRIES probe 0)). c \<le> MAX_RETRIES"
    using loop_counts_bounded [of 0 MAX_RETRIES _ svc probe] by blast
  moreover have "attempts (health_loop svc MAX_RETRIES probe 0) \<le> MAX_RETRIES"
    using loop_attempts_bounded [of svc MAX_RETRIES probe 0] by simp
  moreover have "MAX_RETRIES \<in> set (counts (health_loop svc MAX_RETRIES probe 0)) \<longrightarrow>
      ended (health_loop svc MAX_RETRIES probe 0) = Exit1"
    using loop_max_count [of MAX_RETRIES svc probe 0] pos by blast
  moreover have "ended (health_loop svc MAX_RETRIES probe 0) \<noteq> CondFalse"
    using loop_never_cond_false [OF pos] .
  ultimately show ?thesis by simp
qed

theorem retry_counter_bounded_witness:
  "MAX_RETRIES \<in> set (counts (health_loop Backend MAX_RETRIES (backend_probe dead_backend_env) 0)) \<and>
   MAX_RETRIES \<le> MAX_RETRIES \<and>
   ended (health_loop Backend MAX_RETRIES (backend_probe dead_backend_env) 0) = Exit1"
  using retry_counter_bounded [of Backend "backend_probe dead_backend_env"]
  by (simp add: dead_backend_counts [unfolded MAX_RETRIES_def] MAX_RETRIES_def)

text \<open>
  C7 (as amended): when the script reaches the resolution of the nginx container, it halts
  in the post-deploy validation exactly when the resolving command returns a non-zero
  status or the resolved identifier is empty. In the first case the script exits with the
  status of the command, whatever it printed; in the second with status 1. In both the exit
  status is non-zero and no health probe is run. When the command succeeds and the
  identifier is not empty, the script reaches the health checks and runs the first backend
  probe.
\<close>

theorem nginx_container_resolution:
  assumes "reaches_resolution e"
  shows "((\<exists>c. snd (deploy e) = Halt PostDeploy c) \<longleftrightarrow>
            docker_ps_nginx_status e \<noteq> 0 \<or> NGINX_CONTAINER_ID e = []) \<and>
         (docker_ps_nginx_status e \<noteq> 0 \<longrightarrow>
            snd (deploy e) = Halt PostDeploy (docker_ps_nginx_status e)) \<and>
         (docker_ps_nginx_status e = 0 \<and> NGINX_CONTAINER_ID e = [] \<longrightarrow>
            snd (deploy e) = Halt PostDeploy 1) \<and>
         (docker_ps_nginx_status e \<noteq> 0 \<or> NGINX_CONTAINER_ID e = [] \<longrightarrow>
            exit_code (deploy e) \<noteq> 0 \<and> (\<forall>cmd i. Probe cmd i \<notin> set (fst (deploy e)))) \<and>
         (docker_ps_nginx_status e = 0 \<and> NGINX_CONTAINER_ID e \<noteq> [] \<longrightarrow>
            reaches_health_checks e \<and> Probe CurlF_Login 0 \<in> set (fst (deploy e)))"
proof (cases "docker_ps_nginx_status e \<noteq> 0 \<or> NGINX_CONTAINER_ID e = []")
  case True
  from assms have p: "passes 6 e" by (simp add: reaches_resolution_def)
  with True have "\<not> passes 7 e" by (auto simp: passes_7)
  then have d: "deploy e = steps (take 7 (script e))" by (rule deploy_before)
  have s: "snd (deploy e) =
      Halt PostDeploy (if docker_ps_nginx_status e \<noteq> 0 then docker_ps_nginx_status e else 1)"
    by (simp add: d resolution_fails [OF p True])
  have "Probe cmd i \<notin> set (fst (deploy e))" for cmd i
    using port_check_events [of "Probe cmd i" e]
    by (auto simp: d resolution_fails [OF p True])
  with s True show ?thesis by (auto simp: exit_code_def)
next
  case False
  from assms have p6: "passes 6 e" by (simp add: reaches_resolution_def)
  with False have p: "passes 7 e" by (simp add: passes_7)
  have no: "snd (deploy e) \<noteq> Halt PostDeploy c" for c
  proof
    assume "snd (deploy e) = Halt PostDeploy c"
    with deploy_after [OF p] have "snd (steps (drop 7 (script e))) = Halt PostDeploy c"
      by simp
    then have "\<exists>r\<in>set (drop 7 (script e)). snd r = Halt PostDeploy c"
      by (rule steps_halt)
    then show False
      by (auto simp: after_health_entry summary_def
          dest: health_check_halt image_inspection_halt)
  qed
  have "Probe CurlF_Login 0 \<in> set (fst (health_check Backend (backend_probe e)))"
    by (rule health_check_first_probe) (rule backend_probe_first)
  then have "Probe CurlF_Login 0 \<in> set (fst (steps (drop 7 (script e))))"
    by (simp add: after_health_entry then_run_events)
  with deploy_after [OF p] have "Probe CurlF_Login 0 \<in> set (fst (deploy e))"
    by simp
  with no p False show ?thesis by (simp add: reaches_health_checks_def)
qed

theorem nginx_container_resolution_witness:
  "reaches_resolution no_nginx_env \<and> docker_ps_nginx_status no_nginx_env = 0 \<and>
   NGINX_CONTAINER_ID no_nginx_env = [] \<and>
   snd (deploy no_nginx_env) = Halt PostDeploy 1 \<and>
   reaches_resolution failing_ps_env \<and> docker_ps_nginx_status failing_ps_env = 2 \<and>
   snd (deploy failing_ps_env) = Halt PostDeploy 2 \<and>
   reaches_resolution healthy_env \<and> docker_ps_nginx_status healthy_env = 0 \<and>
   NGINX_CONTAINER_ID healthy_env \<noteq> [] \<and>
   reaches_health_checks healthy_env \<and>
   Probe CurlF_Login 0 \<in> set (fst (deploy healthy_env))"
proof -
  have a: "reaches_resolution no_nginx_env"
    by (simp add: reaches_resolution_def no_nginx_passes)
  have b: "docker_ps_nginx_status no_nginx_env = 0" "NGINX_CONTAINER_ID no_nginx_env = []"
    by (simp_all add: NGINX_CONTAINER_ID_def no_nginx_env_def healthy_env_def)
  have f: "reaches_resolution failing_ps_env"
    by (simp add: reaches_resolution_def failing_ps_passes)
  have g: "docker_ps_nginx_status failing_ps_env = 2"
    by (simp add: failing_ps_env_def)
  have "passes 6 healthy_env" using healthy_passes by (simp add: passes_7)
  then have c: "reaches_resolution healthy_env"
    by (simp add: reaches_resolution_def)
  have d: "docker_ps_nginx_status healthy_env = 0" "NGINX_CONTAINER_ID healthy_env \<noteq> []"
    by (simp_all add: NGINX_CONTAINER_ID_def healthy_env_def)
  from nginx_container_resolution [OF a] b have 1: "snd (deploy no_nginx_env) = Halt PostDeploy 1"
    by blast
  from nginx_container_resolution [OF f] g have 2: "snd (deploy failing_ps_env) = Halt PostDeploy 2"
    by simp
  from nginx_container_resolution [OF c] d have 3: "reaches_health_checks healthy_env \<and>
      Probe CurlF_Login 0 \<in> set (fst (deploy healthy_env))"
    by blast
  from a b f g c d 1 2 3 show ?thesis by blast
qed

text \<open>
  C7 as stated fails: when the resolving command prints an identifier and returns status 2,
  the script halts in the post-deploy validation with status 2 although the resolved
  identifier is not empty.
\<close>

theorem failing_resolution_keeps_identifier:
  "reaches_resolution failing_ps_env \<and>
   NGINX_CONTAINER_ID failing_ps_env = ''4f2a9c1d7b3e'' \<and>
   snd (deploy failing_ps_env) = Halt PostDeploy 2"
proof -
  have p: "passes 6 failing_ps_env" by (rule failing_ps_passes)
  have n: "docker_ps_nginx_status failing_ps_env \<noteq> 0 \<or> NGINX_CONTAINER_ID failing_ps_env = []"
    by (simp add: failing_ps_env_def)
  then have "\<not> passes 7 failing_ps_env" by (auto simp: passes_7)
  then have "deploy failing_ps_env = steps (take 7 (script failing_ps_env))"
    by (rule deploy_before)
  then have "snd (deploy failing_ps_env) = Halt PostDeploy 2"
    by (simp add: resolution_fails [OF p n]) (simp add: failing_ps_env_def)
  moreover have "NGINX_CONTAINER_ID failing_ps_env = ''4f2a9c1d7b3e''"
    by (simp add: NGINX_CONTAINER_ID_def failing_ps_env_def healthy_env_def)
  ultimately show ?thesis using p by (simp add: reaches_resolution_def)
qed

text \<open>
  C8 (as amended): for every identifier that is not empty and every store, the route answers
  with a grouping of the stored transactions whose \<open>email\<close> equals the identifier. The keys
  are distinct; the array under a key holds, in stored order, exactly the matching
  transactions that the handler gives that key, and a key given to none is absent;
  together the arrays hold each matching transaction once; and a returned entry keeps the
  type, the amount and the timestamp of its transaction. The key of a transaction whose
  timestamp reads as a valid date is never \<^verbatim>\<open>Invalid Date\<close>; when the instant falls in the
  year 1 or later of the local time of the server, the key is the English name of the
  month, a space and the year in decimal digits, of that instant in the server's local
  time, and two such transactions have the same key exactly when their instants fall in
  the same month of the same year of the server's local time.
\<close>

theorem transactions_grouped_by_month:
  fixes store :: "'a transaction list"
  assumes "e \<noteq> []"
  shows
  "app_get LocalTZA (Some store) e =
     Json (groupedByMonth LocalTZA (find_email store e)) \<and>
   distinct (map fst (groupedByMonth LocalTZA (find_email store e))) \<and>
   (\<forall>key.
      map_of (groupedByMonth LocalTZA (find_email store e)) key =
        (if filter (\<lambda>t. email t = e \<and> monthYear LocalTZA t = key) store = [] then None
         else Some (map returned_entry
           (filter (\<lambda>t. email t = e \<and> monthYear LocalTZA t = key) store)))) \<and>
   mset (concat (map snd (groupedByMonth LocalTZA (find_email store e)))) =
     mset (map returned_entry (filter (\<lambda>t. email t = e) store)) \<and>
   (\<forall>t :: 'a transaction.
      type (returned_entry t) = type t \<and> amount (returned_entry t) = amount t \<and>
      timestamp (returned_entry t) = timestamp t) \<and>
   (\<forall>(t :: 'a transaction) u.
      new_Date (timestamp t) = Some u \<longrightarrow>
        monthYear LocalTZA t \<noteq> ''Invalid Date'' \<and>
        (1 \<le> YearFromTime (LocalTime LocalTZA u) \<longrightarrow>
           monthYear LocalTZA t =
             month_long (MonthFromTime (LocalTime LocalTZA u)) @ '' '' @
             decimal (nat (YearFromTime (LocalTime LocalTZA u))))) \<and>
   (\<forall>(t :: 'a transaction) (t' :: 'a transaction) u u'.
      new_Date (timestamp t) = Some u \<and> new_Date (timestamp t') = Some u' \<and>
      1 \<le> YearFromTime (LocalTime LocalTZA u) \<and> 1 \<le> YearFromTime (LocalTime LocalTZA u') \<longrightarrow>
        (monthYear LocalTZA t = monthYear LocalTZA t' \<longleftrightarrow>
           MonthFromTime (LocalTime LocalTZA u) = MonthFromTime (LocalTime LocalTZA u') \<and>
           YearFromTime (LocalTime LocalTZA u) = YearFromTime (LocalTime LocalTZA u')))"
proof -
  let ?g = "groupedByMonth LocalTZA (find_email store e)"
  have same: "filter (\<lambda>t. monthYear LocalTZA t = k) (find_email store e) =
      filter (\<lambda>t. email t = e \<and> monthYear LocalTZA t = k) store" for k
    by (simp add: find_email_def conj_commute)
  have a: "app_get LocalTZA (Some store) e = Json ?g"
    using assms by (simp add: app_get_def get_transactions_def)
  have b: "distinct (map fst ?g)"
    unfolding groupedByMonth_def by (rule distinct_foldl_group) simp
  have c: "map_of ?g k =
      (if filter (\<lambda>t. email t = e \<and> monthYear LocalTZA t = k) store = [] then None
       else Some (map returned_entry
         (filter (\<lambda>t. email t = e \<and> monthYear LocalTZA t = k) store)))" for k
    unfolding groupedByMonth_def map_of_foldl_group same by simp
  have d: "mset (concat (map snd ?g)) = mset (map returned_entry (filter (\<lambda>t. email t = e) store))"
    unfolding groupedByMonth_def mset_foldl_group by (simp add: find_email_def)
  have f: "type (returned_entry t) = type t \<and> amount (returned_entry t) = amount t \<and>
      timestamp (returned_entry t) = timestamp t" for t :: "'a transaction"
    by (simp add: returned_entry_def)
  have g: "monthYear LocalTZA t \<noteq> ''Invalid Date'' \<and>
      (1 \<le> YearFromTime (LocalTime LocalTZA u) \<longrightarrow>
         monthYear LocalTZA t =
           month_long (MonthFromTime (LocalTime LocalTZA u)) @ '' '' @
           decimal (nat (YearFromTime (LocalTime LocalTZA u))))"
    if "new_Date (timestamp t) = Some u" for t :: "'a transaction" and u
  proof
    show "monthYear LocalTZA t \<noteq> ''Invalid Date''"
      using that toLocaleString_valid [of LocalTZA u] by (simp add: monthYear_def)
    show "1 \<le> YearFromTime (LocalTime LocalTZA u) \<longrightarrow>
         monthYear LocalTZA t =
           month_long (MonthFromTime (LocalTime LocalTZA u)) @ '' '' @
           decimal (nat (YearFromTime (LocalTime LocalTZA u)))"
      using that by (simp add: monthYear_def toLocaleString_def year_numeric_def)
  qed
  have h: "monthYear LocalTZA t = monthYear LocalTZA t' \<longleftrightarrow>
         MonthFromTime (LocalTime LocalTZA u) = MonthFromTime (LocalTime LocalTZA u') \<and>
         YearFromTime (LocalTime LocalTZA u) = YearFromTime (LocalTime LocalTZA u')"
    if "new_Date (timestamp t) = Some u \<and> new_Date (timestamp t') = Some u' \<and>
      1 \<le> YearFromTime (LocalTime LocalTZA u) \<and> 1 \<le> YearFromTime (LocalTime LocalTZA u')"
    for t t' :: "'a transaction" and u u'
    using that toLocaleString_inj [of LocalTZA u u'] by (simp add: monthYear_def)
  from a b c d f g h show ?thesis by blast
qed

theorem transactions_grouped_by_month_witness:
  "''a@x.ca'' \<noteq> [] \<and>
   app_get utc_server (Some sample_store) ''a@x.ca'' =
     Json (groupedByMonth utc_server (find_email sample_store ''a@x.ca'')) \<and>
   map_of (groupedByMonth utc_server (find_email sample_store ''a@x.ca'')) ''March 2024'' =
     Some [\<lparr>type = ''deposit'', amount = 600, timestamp = TimeValue 1711924200000\<rparr>,
           \<lparr>type = ''withdraw'', amount = 5, timestamp = TimeValue 1709300000000\<rparr>] \<and>
   map_of (groupedByMonth utc_server (find_email sample_store ''a@x.ca'')) ''May 2024'' = None \<and>
   new_Date (timestamp (sample_store ! 0)) = Some 1711924200000 \<and>
   new_Date (timestamp (sample_store ! 3)) = Some 1709300000000 \<and>
   1 \<le> YearFromTime (LocalTime utc_server 1711924200000) \<and>
   1 \<le> YearFromTime (LocalTime utc_server 1709300000000) \<and>
   monthYear utc_server (sample_store ! 0) = monthYear utc_server (sample_store ! 3)"
proof -
  have ne: "''a@x.ca'' \<noteq> []" by simp
  note inst = transactions_grouped_by_month [OF ne, of utc_server sample_store]
  note at_key = inst [THEN conjunct2, THEN conjunct2, THEN conjunct1, rule_format]
  have k1: "map_of (groupedByMonth utc_server (find_email sample_store ''a@x.ca'')) ''March 2024'' =
     Some [\<lparr>type = ''deposit'', amount = 600, timestamp = TimeValue 1711924200000\<rparr>,
           \<lparr>type = ''withdraw'', amount = 5, timestamp = TimeValue 1709300000000\<rparr>]"
    by (subst at_key) (simp add: sample_store_def returned_entry_def utc_server_def date_eval)
  have k2: "map_of (groupedByMonth utc_server (find_email sample_store ''a@x.ca'')) ''May 2024'' = None"
    by (subst at_key) (simp add: sample_store_def returned_entry_def utc_server_def date_eval)
  have v: "new_Date (timestamp (sample_store ! 0)) = Some 1711924200000"
      "new_Date (timestamp (sample_store ! 3)) = Some 1709300000000"
    by (simp_all add: sample_store_def new_Date_def TimeClip_def)
  have y: "1 \<le> YearFromTime (LocalTime utc_server 1711924200000)"
      "1 \<le> YearFromTime (LocalTime utc_server 1709300000000)"
    by (simp_all add: utc_server_def date_eval)
  have m: "MonthFromTime (LocalTime utc_server 1711924200000) =
        MonthFromTime (LocalTime utc_server 1709300000000) \<and>
      YearFromTime (LocalTime utc_server 1711924200000) =
        YearFromTime (LocalTime utc_server 1709300000000)"
    by (simp add: utc_server_def date_eval)
  note same_key = inst [THEN conjunct2, THEN conjunct2, THEN conjunct2, THEN conjunct2,
      THEN conjunct2, THEN conjunct2, rule_format]
  from v y m have s: "monthYear utc_server (sample_store ! 0) =
      monthYear utc_server (sample_store ! 3)"
    by (subst same_key [of "sample_store ! 0" _ "sample_store ! 3"]) simp_all
  have r: "app_get utc_server (Some sample_store) ''a@x.ca'' =
     Json (groupedByMonth utc_server (find_email sample_store ''a@x.ca''))"
    by (rule inst [THEN conjunct1])
  from ne r k1 k2 v y s show ?thesis by simp
qed

text \<open>
  C8 as stated fails. The transaction dated 2024-03-31T22:30:00Z is returned under
  \<^verbatim>\<open>March 2024\<close> by a server on UTC and under \<^verbatim>\<open>April 2024\<close> by a server two hours ahead,
  so the key is not the month and year of the timestamp alone; the transaction whose
  timestamp is not a date is returned under \<^verbatim>\<open>Invalid Date\<close>, which is no month and
  year; and for the empty identifier the answer is status 404.
\<close>

theorem keys_depend_on_server_zone_and_validity:
  "app_get utc_server (Some sample_store) ''a@x.ca'' =
     Json [(''March 2024'',
            [\<lparr>type = ''deposit'', amount = 600, timestamp = TimeValue 1711924200000\<rparr>,
             \<lparr>type = ''withdraw'', amount = 5, timestamp = TimeValue 1709300000000\<rparr>]),
           (''Invalid Date'',
            [\<lparr>type = ''withdraw'', amount = 20, timestamp = NotADate\<rparr>])] \<and>
   app_get utc_plus_2_server (Some sample_store) ''a@x.ca'' =
     Json [(''April 2024'',
            [\<lparr>type = ''deposit'', amount = 600, timestamp = TimeValue 1711924200000\<rparr>]),
           (''Invalid Date'',
            [\<lparr>type = ''withdraw'', amount = 20, timestamp = NotADate\<rparr>]),
           (''March 2024'',
            [\<lparr>type = ''withdraw'', amount = 5, timestamp = TimeValue 1709300000000\<rparr>])] \<and>
   app_get utc_server (Some sample_store) [] = Status404"
  by (simp add: sample_run_utc sample_run_utc_plus_2) (simp add: app_get_def)

text \<open>
  C9: when the script reaches the listing of the images and no line of
  \<^verbatim>\<open>docker images\<close> contains one of the words of the filter, grep returns 1 and the script
  halts there with status 1: neither \<^verbatim>\<open>docker ps\<close> nor the resolution of the nginx
  container is run.
\<close>

theorem image_enumeration_is_fatal:
  assumes "reaches_enumeration e"
    and "grep_E IMAGE_PATTERNS (docker_images_out e) = []"
  shows "deploy e =
           (DockerVersion # fst (port_check e) @ [ComposeDownV, ComposeUp, Sleep 30, DockerImages],
            Halt PostDeploy 1) \<and>
         exit_code (deploy e) \<noteq> 0 \<and>
         DockerPs \<notin> set (fst (deploy e)) \<and>
         DockerPsNginx \<notin> set (fst (deploy e))"
proof -
  from assms(1) have p: "passes 5 e" by (simp add: reaches_enumeration_def)
  with assms(2) have "\<not> passes 6 e" by (simp add: passes_6)
  then have "deploy e = steps (take 6 (script e))" by (rule deploy_before)
  also have "\<dots> = then_run (steps (take 5 (script e))) (list_images_and_containers e)"
    by (simp add: script_def then_run_def split: status.splits)
  also have "\<dots> = (DockerVersion # fst (port_check e) @
      [ComposeDownV, ComposeUp, Sleep 30, DockerImages], Halt PostDeploy 1)"
    by (simp add: before_enumeration [OF p] list_images_and_containers_eq assms(2) then_run_def)
  finally have d: "deploy e = (DockerVersion # fst (port_check e) @
      [ComposeDownV, ComposeUp, Sleep 30, DockerImages], Halt PostDeploy 1)" .
  have "DockerPs \<notin> set (fst (deploy e))" "DockerPsNginx \<notin> set (fst (deploy e))"
    using port_check_events [of DockerPs e] port_check_events [of DockerPsNginx e]
    by (auto simp: d)
  with d show ?thesis by (simp add: exit_code_def)
qed

theorem image_enumeration_is_fatal_witness:
  "reaches_enumeration other_images_env \<and>
   grep_E IMAGE_PATTERNS (docker_images_out other_images_env) = [] \<and>
   snd (deploy other_images_env) = Halt PostDeploy 1 \<and>
   DockerPsNginx \<notin> set (fst (deploy other_images_env))"
proof -
  have a: "reaches_enumeration other_images_env"
    by (simp add: reaches_enumeration_def passes_5 passes_3 other_images_env_def healthy_env_def)
  have b: "grep_E IMAGE_PATTERNS (docker_images_out other_images_env) = []"
    by (simp add: grep_E_def IMAGE_PATTERNS_def other_images_env_def)
  from image_enumeration_is_fatal [OF a b] a b show ?thesis by (metis snd_conv)
qed

text \<open>
  C10: a backend attempt succeeds exactly when \<^verbatim>\<open>curl -f\<close> of the login path succeeds or
  \<^verbatim>\<open>curl -s\<close> of the root path does; an nginx attempt succeeds exactly when \<^verbatim>\<open>curl -f\<close>
  of the root path succeeds or the fetched page contains \<^verbatim>\<open>Pixel River\<close>. So each health
  check passes when only its second probe ever succeeds: the backend check passes although
  the login path never answers.
\<close>

theorem probe_disjunctions:
  "(snd (backend_probe e i) \<longleftrightarrow> curl_f_login e i \<or> curl_s_backend e i) \<and>
   (snd (nginx_probe e i) \<longleftrightarrow>
      curl_f_nginx e i \<or> list_ex (grep_line ''Pixel River'') (curl_s_nginx_body e i)) \<and>
   ((\<forall>j. \<not> curl_f_login e j) \<and> (\<exists>j<MAX_RETRIES. curl_s_backend e j) \<longrightarrow>
      snd (health_check Backend (backend_probe e)) = Continue) \<and>
   ((\<forall>j. \<not> curl_f_nginx e j) \<and>
    (\<exists>j<MAX_RETRIES. list_ex (grep_line ''Pixel River'') (curl_s_nginx_body e j)) \<longrightarrow>
      snd (health_check Nginx (nginx_probe e)) = Continue)"
proof -
  have b: "snd (backend_probe e i) \<longleftrightarrow> curl_f_login e i \<or> curl_s_backend e i" for i
    by (simp add: backend_probe_def)
  have n: "snd (nginx_probe e i) \<longleftrightarrow>
      curl_f_nginx e i \<or> list_ex (grep_line ''Pixel River'') (curl_s_nginx_body e i)" for i
    by (auto simp: nginx_probe_def grep_status_def grep_E_def filter_empty_conv list_ex_iff)
  have "snd (health_check Backend (backend_probe e)) = Continue"
    if "\<exists>j<MAX_RETRIES. curl_s_backend e j"
  proof -
    from that obtain j where "j < MAX_RETRIES" "snd (backend_probe e j)"
      using b by blast
    then show ?thesis by (rule health_check_passes)
  qed
  moreover have "snd (health_check Nginx (nginx_probe e)) = Continue"
    if "\<exists>j<MAX_RETRIES. list_ex (grep_line ''Pixel River'') (curl_s_nginx_body e j)"
  proof -
    from that obtain j where "j < MAX_RETRIES" "snd (nginx_probe e j)"
      using n by blast
    then show ?thesis by (rule health_check_passes)
  qed
  ultimately show ?thesis using b n by blast
qed

theorem probe_disjunctions_witness:
  "(\<forall>j. \<not> curl_f_login healthy_env j) \<and> 2 < MAX_RETRIES \<and> curl_s_backend healthy_env 2 \<and>
   snd (health_check Backend (backend_probe healthy_env)) = Continue \<and>
   (\<forall>j. \<not> curl_f_nginx healthy_env j) \<and> 1 < MAX_RETRIES \<and>
   list_ex (grep_line ''Pixel River'') (curl_s_nginx_body healthy_env 1) \<and>
   snd (health_check Nginx (nginx_probe healthy_env)) = Continue"
proof -
  have a: "\<forall>j. \<not> curl_f_login healthy_env j" "\<forall>j. \<not> curl_f_nginx healthy_env j"
    by (simp_all add: healthy_env_def)
  have b: "2 < MAX_RETRIES" "1 < MAX_RETRIES"
    by (simp_all add: MAX_RETRIES_def)
  have c: "curl_s_backend healthy_env 2"
    by (simp add: healthy_env_def)
  have d: "list_ex (grep_line ''Pixel River'') (curl_s_nginx_body healthy_env 1)"
    by (simp add: healthy_env_def)
  from probe_disjunctions [of healthy_env] a b c d show ?thesis
    by blast
qed

end
